theory Spec2Isabelle
  imports Main "HOL-Library.Word" "HOL-Library.Sublist"
begin

section \<open>Object addresses and expansible address arrays (dependency.c)\<close>

text \<open>
  \<^verbatim>\<open>Oid\<close> is an unsigned 32-bit integer and \<^verbatim>\<open>int32\<close> a signed one; both are
  32-bit words here, read with \<open>unat\<close> or \<open>sint\<close> where the source's type matters.
\<close>

type_synonym Oid = "32 word"
type_synonym int32 = "32 word"

record ObjectAddress =
  classId :: Oid
  objectId :: Oid
  objectSubId :: int32

text \<open>
  \<^verbatim>\<open>struct ObjectAddresses\<close>: the entries \<^verbatim>\<open>refs[0 .. numrefs-1]\<close> in array order.
  \<^verbatim>\<open>maxrefs\<close> only drives \<^verbatim>\<open>repalloc\<close> and is not part of the contents.
\<close>

type_synonym ObjectAddresses = "ObjectAddress list"

definition new_object_addresses :: "ObjectAddresses" where
  "new_object_addresses = []"

definition add_exact_object_address :: "ObjectAddress \<Rightarrow> ObjectAddresses \<Rightarrow> ObjectAddresses" where
  "add_exact_object_address object addrs = addrs @ [object]"

text \<open>
  The loop of \<^verbatim>\<open>object_address_present\<close> over the entries in the order it visits them
  (from index \<^verbatim>\<open>numrefs - 1\<close> down to 0).
\<close>

fun object_address_present_loop :: "ObjectAddress \<Rightarrow> ObjectAddress list \<Rightarrow> bool" where
  "object_address_present_loop object [] = False"
| "object_address_present_loop object (thisobj # rest) =
     (if classId object = classId thisobj \<and> objectId object = objectId thisobj
      then (if objectSubId object = objectSubId thisobj \<or> objectSubId thisobj = 0
            then True
            else object_address_present_loop object rest)
      else object_address_present_loop object rest)"

definition object_address_present :: "ObjectAddress \<Rightarrow> ObjectAddresses \<Rightarrow> bool" where
  "object_address_present object addrs = object_address_present_loop object (rev addrs)"

subsection \<open>Sorting and duplicate elimination\<close>

text \<open>
  \<^verbatim>\<open>object_address_comparator\<close>: the result is -1, 0 or 1. The order \<open><\<close> of
  words is the unsigned one, which is C's order on \<^verbatim>\<open>Oid\<close> and on the
  \<^verbatim>\<open>(unsigned int)\<close> casts of the two \<^verbatim>\<open>objectSubId\<close>.
\<close>

definition object_address_comparator :: "ObjectAddress \<Rightarrow> ObjectAddress \<Rightarrow> int" where
  "object_address_comparator obja objb =
     (if classId obja < classId objb then -1
      else if classId obja > classId objb then 1
      else if objectId obja < objectId objb then -1
      else if objectId obja > objectId objb then 1
      else if objectSubId obja < objectSubId objb then -1
      else if objectSubId obja > objectSubId objb then 1
      else 0)"

text \<open>
  The C library's \<^verbatim>\<open>qsort\<close> with a comparator: an insertion sort stands for it. The
  comparator above returns 0 only on equal addresses, so every correct sort returns
  the same array.
\<close>

fun qsort_insert :: "('a \<Rightarrow> 'a \<Rightarrow> int) \<Rightarrow> 'a \<Rightarrow> 'a list \<Rightarrow> 'a list" where
  "qsort_insert cmp x [] = [x]"
| "qsort_insert cmp x (y # ys) =
     (if cmp x y \<le> 0 then x # y # ys else y # qsort_insert cmp x ys)"

fun qsort :: "('a \<Rightarrow> 'a \<Rightarrow> int) \<Rightarrow> 'a list \<Rightarrow> 'a list" where
  "qsort cmp [] = []"
| "qsort cmp (x # xs) = qsort_insert cmp x (qsort cmp xs)"

text \<open>
  The "Remove dups" loop of \<^verbatim>\<open>eliminate_duplicate_dependencies\<close>. \<open>kept\<close> is
  \<^verbatim>\<open>refs[0 .. newrefs-2]\<close>, \<open>priorobj\<close> is \<^verbatim>\<open>refs[newrefs-1]\<close> and the last argument
  is \<^verbatim>\<open>refs[oldref ..]\<close>, the entries not yet read.
\<close>

fun remove_dups_loop ::
  "ObjectAddress list \<Rightarrow> ObjectAddress \<Rightarrow> ObjectAddress list \<Rightarrow> ObjectAddress list" where
  "remove_dups_loop kept priorobj [] = kept @ [priorobj]"
| "remove_dups_loop kept priorobj (thisobj # rest) =
     (if classId priorobj = classId thisobj \<and> objectId priorobj = objectId thisobj
      then (if objectSubId priorobj = objectSubId thisobj
            then remove_dups_loop kept priorobj rest
            else if objectSubId priorobj = 0
            then remove_dups_loop kept (priorobj\<lparr>objectSubId := objectSubId thisobj\<rparr>) rest
            else remove_dups_loop (kept @ [priorobj]) thisobj rest)
      else remove_dups_loop (kept @ [priorobj]) thisobj rest)"

definition eliminate_duplicate_dependencies :: "ObjectAddresses \<Rightarrow> ObjectAddresses" where
  "eliminate_duplicate_dependencies addrs =
     (if length addrs \<le> 1 then addrs
      else case qsort object_address_comparator addrs of
             [] \<Rightarrow> []
           | first # rest \<Rightarrow> remove_dups_loop [] first rest)"

section \<open>The object classes and the destructor dispatch\<close>

text \<open>
  \<^verbatim>\<open>ObjectClass\<close> (catalog/dependency.h), in the order of \<^verbatim>\<open>object_classes[]\<close>.
\<close>

datatype ObjectClass =
    OCLASS_CLASS | OCLASS_PROC | OCLASS_TYPE | OCLASS_CAST | OCLASS_CONSTRAINT
  | OCLASS_CONVERSION | OCLASS_DEFAULT | OCLASS_LANGUAGE | OCLASS_OPERATOR
  | OCLASS_OPCLASS | OCLASS_REWRITE | OCLASS_TRIGGER | OCLASS_SCHEMA | OCLASS_ROLE
  | OCLASS_DATABASE | OCLASS_TBLSPACE | OCLASS_FILESPACE | OCLASS_FILESYSTEM
  | OCLASS_FDW | OCLASS_FOREIGN_SERVER | OCLASS_USER_MAPPING | OCLASS_EXTPROTOCOL
  | OCLASS_COMPRESSION

datatype GpRoleValue = GP_ROLE_UTILITY | GP_ROLE_DISPATCH | GP_ROLE_EXECUTE

text \<open>
  What \<^verbatim>\<open>ereport\<close> and \<^verbatim>\<open>elog\<close> raise at level \<^verbatim>\<open>ERROR\<close>, by message, and the
  trap of a failed \<^verbatim>\<open>Assert\<close>. The strings are object descriptions.
  \<open>catalog_lookup_failed\<close> stands for the errors of the catalog lookups inside
  \<^verbatim>\<open>getObjectDescription\<close> ("cache lookup failed for ...", "could not find tuple
  for ...").
\<close>

datatype error =
    cannot_drop_other_objects_depend string
  | cannot_drop_requires_it string string
  | cannot_drop_required_by_system string
  | failed_to_drop_all_depending string
  | multiple_INTERNAL_dependencies string
  | incorrect_use_of_PIN string
  | unrecognized_dependency_type char string
  | unrecognized_object_class Oid
  | catalog_lookup_failed ObjectAddress
  | TRAP_FailedAssertion

text \<open>
  The \<^verbatim>\<open>SQLSTATE\<close> of an error: \<^verbatim>\<open>ereport\<close> with
  \<^verbatim>\<open>ERRCODE_DEPENDENT_OBJECTS_STILL_EXIST\<close>, against \<^verbatim>\<open>elog\<close>.
\<close>

fun is_DEPENDENT_OBJECTS_STILL_EXIST :: "error \<Rightarrow> bool" where
  "is_DEPENDENT_OBJECTS_STILL_EXIST (cannot_drop_other_objects_depend d) = True"
| "is_DEPENDENT_OBJECTS_STILL_EXIST (cannot_drop_requires_it d e) = True"
| "is_DEPENDENT_OBJECTS_STILL_EXIST (cannot_drop_required_by_system d) = True"
| "is_DEPENDENT_OBJECTS_STILL_EXIST (failed_to_drop_all_depending d) = True"
| "is_DEPENDENT_OBJECTS_STILL_EXIST e = False"

text \<open>
  The environment of the engine: what the sources at hand use and do not define.
  \<open>object_classes\<close> is the table of catalog relation OIDs (\<^verbatim>\<open>RelationRelationId\<close>
  and so on, from the headers catalog/pg_*.h); \<open>assert_checking\<close> says whether
  \<^verbatim>\<open>Assert\<close> is compiled in; \<open>Gp_role\<close> is the global of cdb/cdbvars.h;
  \<open>get_rel_relkind\<close> is the lookup of utils/lsyscache.c; \<open>describe_class\<close> stands
  for the catalog lookups and name formatting of each branch of
  \<^verbatim>\<open>getObjectDescription\<close>, \<open>None\<close> when a lookup finds nothing; \<open>errstart\<close> is
  the test of utils/error/elog.c that says whether a message of a level is output at
  all (it depends on \<^verbatim>\<open>log_min_messages\<close> and \<^verbatim>\<open>client_min_messages\<close>).
\<close>

datatype elevel = DEBUG2 | DEBUG1 | NOTICE

record env =
  object_classes :: "ObjectClass \<Rightarrow> Oid"
  assert_checking :: bool
  Gp_role :: GpRoleValue
  get_rel_relkind :: "Oid \<Rightarrow> char"
  describe_class :: "ObjectClass \<Rightarrow> ObjectAddress \<Rightarrow> string option"
  errstart :: "elevel \<Rightarrow> bool"

definition RELKIND_INDEX :: char where
  "RELKIND_INDEX = CHR ''i''"

text \<open>\<^verbatim>\<open>Assert(object->objectSubId == 0); return c;\<close>\<close>

definition Assert_whole_object :: "env \<Rightarrow> ObjectAddress \<Rightarrow> ObjectClass \<Rightarrow> error + ObjectClass" where
  "Assert_whole_object e object c =
     (if assert_checking e \<and> objectSubId object \<noteq> 0 then Inl TRAP_FailedAssertion else Inr c)"

text \<open>\<^verbatim>\<open>getObjectClass\<close>: the switch on \<^verbatim>\<open>object->classId\<close>, case by case.\<close>

definition getObjectClass :: "env \<Rightarrow> ObjectAddress \<Rightarrow> error + ObjectClass" where
  "getObjectClass e object =
     (if classId object = object_classes e OCLASS_CLASS then Inr OCLASS_CLASS
      else if classId object = object_classes e OCLASS_PROC
        then Assert_whole_object e object OCLASS_PROC
      else if classId object = object_classes e OCLASS_TYPE
        then Assert_whole_object e object OCLASS_TYPE
      else if classId object = object_classes e OCLASS_CAST
        then Assert_whole_object e object OCLASS_CAST
      else if classId object = object_classes e OCLASS_CONSTRAINT
        then Assert_whole_object e object OCLASS_CONSTRAINT
      else if classId object = object_classes e OCLASS_CONVERSION
        then Assert_whole_object e object OCLASS_CONVERSION
      else if classId object = object_classes e OCLASS_DEFAULT
        then Assert_whole_object e object OCLASS_DEFAULT
      else if classId object = object_classes e OCLASS_LANGUAGE
        then Assert_whole_object e object OCLASS_LANGUAGE
      else if classId object = object_classes e OCLASS_OPERATOR
        then Assert_whole_object e object OCLASS_OPERATOR
      else if classId object = object_classes e OCLASS_OPCLASS
        then Assert_whole_object e object OCLASS_OPCLASS
      else if classId object = object_classes e OCLASS_REWRITE
        then Assert_whole_object e object OCLASS_REWRITE
      else if classId object = object_classes e OCLASS_TRIGGER
        then Assert_whole_object e object OCLASS_TRIGGER
      else if classId object = object_classes e OCLASS_SCHEMA
        then Assert_whole_object e object OCLASS_SCHEMA
      else if classId object = object_classes e OCLASS_ROLE
        then Assert_whole_object e object OCLASS_ROLE
      else if classId object = object_classes e OCLASS_DATABASE
        then Assert_whole_object e object OCLASS_DATABASE
      else if classId object = object_classes e OCLASS_TBLSPACE
        then Assert_whole_object e object OCLASS_TBLSPACE
      else if classId object = object_classes e OCLASS_FILESPACE
        then Assert_whole_object e object OCLASS_FILESPACE
      else if classId object = object_classes e OCLASS_FILESYSTEM
        then Assert_whole_object e object OCLASS_FILESYSTEM
      else if classId object = object_classes e OCLASS_FDW
        then Assert_whole_object e object OCLASS_FDW
      else if classId object = object_classes e OCLASS_FOREIGN_SERVER
        then Assert_whole_object e object OCLASS_FOREIGN_SERVER
      else if classId object = object_classes e OCLASS_USER_MAPPING
        then Assert_whole_object e object OCLASS_USER_MAPPING
      else if classId object = object_classes e OCLASS_EXTPROTOCOL
        then Assert_whole_object e object OCLASS_EXTPROTOCOL
      else if classId object = object_classes e OCLASS_COMPRESSION
        then Assert_whole_object e object OCLASS_COMPRESSION
      else Inl (unrecognized_object_class (classId object)))"

text \<open>
  The messages reported below \<^verbatim>\<open>ERROR\<close>. A message that names objects keeps their
  addresses.
\<close>

datatype message =
    depends_on ObjectAddress ObjectAddress
  | drop_cascades_to ObjectAddress
  | drop_auto_cascades_to ObjectAddress
  | dependency_not_yet_implemented
  | NOT_YET_IMPLEMENTED

text \<open>
  \<^verbatim>\<open>getObjectDescription\<close>: the class first, then the branch of that class. The
  result is the description together with the messages reported on the way: the branch
  of \<^verbatim>\<open>OCLASS_COMPRESSION\<close> appends nothing to the buffer and calls
  \<^verbatim>\<open>elog(NOTICE, "NOT YET IMPLEMENTED")\<close>; no other branch reports anything.
\<close>

definition getObjectDescription ::
    "env \<Rightarrow> ObjectAddress \<Rightarrow> error + string \<times> (elevel \<times> message) list" where
  "getObjectDescription e object =
     (case getObjectClass e object of
        Inl err \<Rightarrow> Inl err
      | Inr OCLASS_COMPRESSION \<Rightarrow> Inr ([], [(NOTICE, NOT_YET_IMPLEMENTED)])
      | Inr c \<Rightarrow>
          (case describe_class e c object of
             None \<Rightarrow> Inl (catalog_lookup_failed object)
           | Some d \<Rightarrow> Inr (d, [])))"

text \<open>
  The destructors that \<^verbatim>\<open>doDeletion\<close> dispatches to, and the other catalog
  routines \<^verbatim>\<open>recursiveDeletion\<close> calls, live in other files: a call is recorded
  with its arguments.
\<close>

datatype catalog_call =
    index_drop Oid
  | RemoveAttributeById Oid int32
  | heap_drop_with_catalog Oid
  | RemoveFunctionById Oid
  | RemoveTypeById Oid
  | DropCastById Oid
  | RemoveConstraintById Oid
  | RemoveConversionById Oid
  | RemoveAttrDefaultById Oid
  | DropProceduralLanguageById Oid
  | RemoveOperatorById Oid
  | RemoveOpClassById Oid
  | RemoveRewriteRuleById Oid
  | RemoveTriggerById Oid
  | RemoveSchemaById Oid
  | RemoveFileSpaceById Oid
  | RemoveFileSystemById Oid
  | RemoveForeignDataWrapperById Oid
  | RemoveForeignServerById Oid
  | RemoveUserMappingById Oid
  | RemoveExtProtocolById Oid
  | DeleteComments Oid Oid int32
  | deleteSharedDependencyRecordsFor Oid Oid

text \<open>
  What \<^verbatim>\<open>doDeletion\<close> does to the catalogs: either one destructor call, or, for
  \<^verbatim>\<open>OCLASS_COMPRESSION\<close>, the \<^verbatim>\<open>NOTICE\<close> alone.
\<close>

datatype deletion = call catalog_call | notice message

definition doDeletion :: "env \<Rightarrow> ObjectAddress \<Rightarrow> error + deletion" where
  "doDeletion e object =
     (case getObjectClass e object of
        Inl err \<Rightarrow> Inl err
      | Inr OCLASS_CLASS \<Rightarrow>
          (let relKind = get_rel_relkind e (objectId object) in
           if relKind = RELKIND_INDEX
           then (if assert_checking e \<and> objectSubId object \<noteq> 0 then Inl TRAP_FailedAssertion
                 else Inr (call (index_drop (objectId object))))
           else if objectSubId object \<noteq> 0
           then Inr (call (RemoveAttributeById (objectId object) (objectSubId object)))
           else Inr (call (heap_drop_with_catalog (objectId object))))
      | Inr OCLASS_PROC \<Rightarrow> Inr (call (RemoveFunctionById (objectId object)))
      | Inr OCLASS_TYPE \<Rightarrow> Inr (call (RemoveTypeById (objectId object)))
      | Inr OCLASS_CAST \<Rightarrow> Inr (call (DropCastById (objectId object)))
      | Inr OCLASS_CONSTRAINT \<Rightarrow> Inr (call (RemoveConstraintById (objectId object)))
      | Inr OCLASS_CONVERSION \<Rightarrow> Inr (call (RemoveConversionById (objectId object)))
      | Inr OCLASS_DEFAULT \<Rightarrow> Inr (call (RemoveAttrDefaultById (objectId object)))
      | Inr OCLASS_LANGUAGE \<Rightarrow> Inr (call (DropProceduralLanguageById (objectId object)))
      | Inr OCLASS_OPERATOR \<Rightarrow> Inr (call (RemoveOperatorById (objectId object)))
      | Inr OCLASS_OPCLASS \<Rightarrow> Inr (call (RemoveOpClassById (objectId object)))
      | Inr OCLASS_REWRITE \<Rightarrow> Inr (call (RemoveRewriteRuleById (objectId object)))
      | Inr OCLASS_TRIGGER \<Rightarrow> Inr (call (RemoveTriggerById (objectId object)))
      | Inr OCLASS_SCHEMA \<Rightarrow> Inr (call (RemoveSchemaById (objectId object)))
      | Inr OCLASS_FILESPACE \<Rightarrow> Inr (call (RemoveFileSpaceById (objectId object)))
      | Inr OCLASS_FILESYSTEM \<Rightarrow> Inr (call (RemoveFileSystemById (objectId object)))
      | Inr OCLASS_FDW \<Rightarrow> Inr (call (RemoveForeignDataWrapperById (objectId object)))
      | Inr OCLASS_FOREIGN_SERVER \<Rightarrow> Inr (call (RemoveForeignServerById (objectId object)))
      | Inr OCLASS_USER_MAPPING \<Rightarrow> Inr (call (RemoveUserMappingById (objectId object)))
      | Inr OCLASS_EXTPROTOCOL \<Rightarrow> Inr (call (RemoveExtProtocolById (objectId object)))
      | Inr OCLASS_COMPRESSION \<Rightarrow> Inr (notice dependency_not_yet_implemented)
      | Inr _ \<Rightarrow> Inl (unrecognized_object_class (classId object)))"

section \<open>The deletion engine\<close>

text \<open>
  A tuple of \<^verbatim>\<open>pg_depend\<close> (\<^verbatim>\<open>Form_pg_depend\<close>) with its tuple identifier: the
  dependent object, the referenced object and the dependency type, a \<^verbatim>\<open>char\<close>.
\<close>

record pg_depend =
  t_self :: nat
  classid :: Oid
  objid :: Oid
  objsubid :: int32
  refclassid :: Oid
  refobjid :: Oid
  refobjsubid :: int32
  deptype :: char

text \<open>
  Modelled from the spec: the values of \<^verbatim>\<open>DependencyType\<close> (catalog/dependency.h is
  not among the sources), the single-character tags of section 6.
\<close>

definition DEPENDENCY_NORMAL :: char where "DEPENDENCY_NORMAL = CHR ''n''"
definition DEPENDENCY_AUTO :: char where "DEPENDENCY_AUTO = CHR ''a''"
definition DEPENDENCY_INTERNAL :: char where "DEPENDENCY_INTERNAL = CHR ''i''"
definition DEPENDENCY_PIN :: char where "DEPENDENCY_PIN = CHR ''p''"

datatype DropBehavior = DROP_RESTRICT | DROP_CASCADE

text \<open>
  The state the engine works on: the live tuples of \<^verbatim>\<open>pg_depend\<close> in scan order,
  the calls made to the other catalog routines, the calls of \<^verbatim>\<open>ereport\<close> and
  \<^verbatim>\<open>elog\<close> below \<^verbatim>\<open>ERROR\<close> in the order they are completed (level and message,
  whether or not the level is one that is output), the objects \<^verbatim>\<open>doDeletion\<close> has
  been run on, and the \<^verbatim>\<open>alreadyDeleted\<close> array of the caller (\<open>None\<close> for a
  \<^verbatim>\<open>NULL\<close> pointer).
\<close>

record catalog =
  depRel :: "pg_depend list"
  calls :: "catalog_call list"
  messages :: "(elevel \<times> message) list"
  deleted :: "ObjectAddress list"
  alreadyDeleted :: "ObjectAddresses option"

definition ereport :: "elevel \<Rightarrow> message \<Rightarrow> catalog \<Rightarrow> catalog" where
  "ereport lvl msg st = st\<lparr>messages := messages st @ [(lvl, msg)]\<rparr>"

text \<open>
  \<^verbatim>\<open>ereport(lvl, (errmsg("...", getObjectDescription(&otherObject) ...)))\<close> below
  \<^verbatim>\<open>ERROR\<close>. Modelled from the macro of utils/elog.h, which is not among the
  sources: \<^verbatim>\<open>ereport\<close> is \<^verbatim>\<open>errstart(lvl, ...) ? errfinish(...) : 0\<close>, so the
  arguments of the message, here the call of \<^verbatim>\<open>getObjectDescription\<close>, are evaluated
  only when \<^verbatim>\<open>errstart\<close> accepts the level. That call may raise an error, and what
  it reports is complete before the message itself.
\<close>

definition ereport_description ::
    "env \<Rightarrow> elevel \<Rightarrow> message \<Rightarrow> ObjectAddress \<Rightarrow> catalog \<Rightarrow> error + catalog" where
  "ereport_description e lvl msg otherObject st =
     (if errstart e lvl
      then (case getObjectDescription e otherObject of
              Inl err \<Rightarrow> Inl err
            | Inr (d, reported) \<Rightarrow>
                Inr (ereport lvl msg (st\<lparr>messages := messages st @ reported\<rparr>)))
      else Inr (ereport lvl msg st))"

text \<open>The value of \<^verbatim>\<open>ok\<close> after such a report, with the state it leaves.\<close>

definition with_ok :: "bool \<Rightarrow> error + catalog \<Rightarrow> error + bool \<times> catalog" where
  "with_ok ok r = (case r of Inl err \<Rightarrow> Inl err | Inr st \<Rightarrow> Inr (ok, st))"

definition dependent_object :: "pg_depend \<Rightarrow> ObjectAddress" where
  "dependent_object tup =
     \<lparr>classId = classid tup, objectId = objid tup, objectSubId = objsubid tup\<rparr>"

definition referenced_object :: "pg_depend \<Rightarrow> ObjectAddress" where
  "referenced_object tup =
     \<lparr>classId = refclassid tup, objectId = refobjid tup, objectSubId = refobjsubid tup\<rparr>"

text \<open>
  The two scans: the tuples that link from the object (with the third key only for a
  sub-object), and the tuples that link to it.
\<close>

definition scan_depender :: "ObjectAddress \<Rightarrow> pg_depend list \<Rightarrow> pg_depend list" where
  "scan_depender object rel =
     filter (\<lambda>tup. classid tup = classId object \<and> objid tup = objectId object \<and>
                   (objectSubId object \<noteq> 0 \<longrightarrow> objsubid tup = objectSubId object)) rel"

definition scan_reference :: "ObjectAddress \<Rightarrow> pg_depend list \<Rightarrow> pg_depend list" where
  "scan_reference object rel =
     filter (\<lambda>tup. refclassid tup = classId object \<and> refobjid tup = objectId object \<and>
                   (objectSubId object \<noteq> 0 \<longrightarrow> refobjsubid tup = objectSubId object)) rel"

text \<open>
  \<^verbatim>\<open>caql_delete_current\<close> removes the tuple at once. In the source a deleted tuple
  stops being visible at the next \<^verbatim>\<open>CommandCounterIncrement\<close>; the only scan that
  deletes is the one of Step 1, which does not look at a tuple twice and is followed by
  \<^verbatim>\<open>CommandCounterIncrement\<close> before any other scan reads on.
\<close>

definition caql_delete_current :: "pg_depend \<Rightarrow> pg_depend list \<Rightarrow> pg_depend list" where
  "caql_delete_current tup rel = filter (\<lambda>t. t \<noteq> tup) rel"

subsection \<open>findAutoDeletableObjects\<close>

text \<open>
  The recursion is bounded by \<open>fuel\<close>, the depth of calls still allowed; \<open>None\<close>
  is a recursion that did not return within it.
\<close>

fun findAutoDeletableObjects ::
    "nat \<Rightarrow> env \<Rightarrow> ObjectAddress \<Rightarrow> ObjectAddresses \<Rightarrow> pg_depend list \<Rightarrow> bool \<Rightarrow>
     (error + ObjectAddresses) option"
  and findAutoDeletableObjects_scan ::
    "nat \<Rightarrow> env \<Rightarrow> ObjectAddress \<Rightarrow> pg_depend list \<Rightarrow> pg_depend list \<Rightarrow> ObjectAddresses \<Rightarrow>
     (error + ObjectAddresses) option"
  where
  "findAutoDeletableObjects 0 e object oktodelete rel addself = None"
| "findAutoDeletableObjects (Suc fuel) e object oktodelete rel addself =
     (if object_address_present object oktodelete then Some (Inr oktodelete)
      else findAutoDeletableObjects_scan fuel e object rel (scan_reference object rel)
             (if addself then add_exact_object_address object oktodelete else oktodelete))"
| "findAutoDeletableObjects_scan fuel e object rel [] oktodelete = Some (Inr oktodelete)"
| "findAutoDeletableObjects_scan fuel e object rel (tup # tups) oktodelete =
     (if deptype tup = DEPENDENCY_NORMAL
      then findAutoDeletableObjects_scan fuel e object rel tups oktodelete
      else if deptype tup = DEPENDENCY_AUTO \<or> deptype tup = DEPENDENCY_INTERNAL
      then (case findAutoDeletableObjects fuel e (dependent_object tup) oktodelete rel True of
              None \<Rightarrow> None
            | Some (Inl err) \<Rightarrow> Some (Inl err)
            | Some (Inr oktodelete') \<Rightarrow>
                findAutoDeletableObjects_scan fuel e object rel tups oktodelete')
      else if deptype tup = DEPENDENCY_PIN
      then (case getObjectDescription e object of
              Inl err \<Rightarrow> Some (Inl err)
            | Inr (d, reported) \<Rightarrow> Some (Inl (cannot_drop_required_by_system d)))
      else (case getObjectDescription e object of
              Inl err \<Rightarrow> Some (Inl err)
            | Inr (d, reported) \<Rightarrow>
                Some (Inl (unrecognized_dependency_type (deptype tup) d))))"

subsection \<open>recursiveDeletion and deleteDependentObjects\<close>

text \<open>
  Step 1 of \<^verbatim>\<open>recursiveDeletion\<close>: the loop over the tuples that link from the object.
  \<open>owning\<close> is \<^verbatim>\<open>owningObject\<close> once \<^verbatim>\<open>amOwned\<close> is set; the result is it and the
  relation without the tuples deleted.
\<close>

fun recursiveDeletion_step1 ::
    "env \<Rightarrow> string \<Rightarrow> ObjectAddress option \<Rightarrow> pg_depend list \<Rightarrow> ObjectAddress option \<Rightarrow>
     pg_depend list \<Rightarrow> error + (ObjectAddress option \<times> pg_depend list)" where
  "recursiveDeletion_step1 e objDescription callingObject [] owning rel = Inr (owning, rel)"
| "recursiveDeletion_step1 e objDescription callingObject (tup # tups) owning rel =
     (let otherObject = referenced_object tup in
      if deptype tup = DEPENDENCY_NORMAL \<or> deptype tup = DEPENDENCY_AUTO
      then recursiveDeletion_step1 e objDescription callingObject tups owning
             (caql_delete_current tup rel)
      else if deptype tup = DEPENDENCY_INTERNAL
      then (case callingObject of
              None \<Rightarrow>
                (case getObjectDescription e otherObject of
                   Inl err \<Rightarrow> Inl err
                 | Inr (otherObjDesc, reported) \<Rightarrow>
                     Inl (cannot_drop_requires_it objDescription otherObjDesc))
            | Some caller \<Rightarrow>
                if classId caller = classId otherObject \<and>
                   objectId caller = objectId otherObject \<and>
                   (objectSubId caller = objectSubId otherObject \<or> objectSubId caller = 0)
                then recursiveDeletion_step1 e objDescription callingObject tups owning
                       (caql_delete_current tup rel)
                else if owning \<noteq> None
                then Inl (multiple_INTERNAL_dependencies objDescription)
                else recursiveDeletion_step1 e objDescription callingObject tups
                       (Some otherObject) rel)
      else if deptype tup = DEPENDENCY_PIN
      then Inl (incorrect_use_of_PIN objDescription)
      else Inl (unrecognized_dependency_type (deptype tup) objDescription))"

text \<open>Step 3 after \<^verbatim>\<open>doDeletion\<close> has returned \<open>d\<close>.\<close>

definition recursiveDeletion_step3 :: "ObjectAddress \<Rightarrow> deletion \<Rightarrow> catalog \<Rightarrow> catalog" where
  "recursiveDeletion_step3 object d st =
     (let st1 = (case d of
                   call c \<Rightarrow> st\<lparr>calls := calls st @ [c]\<rparr>
                 | notice m \<Rightarrow> ereport NOTICE m st);
          st2 = st1\<lparr>deleted := deleted st1 @ [object]\<rparr>;
          st3 = (case alreadyDeleted st2 of
                   None \<Rightarrow> st2
                 | Some already \<Rightarrow>
                     if \<not> object_address_present object already
                     then st2\<lparr>alreadyDeleted := Some (add_exact_object_address object already)\<rparr>
                     else st2);
          st4 = st3\<lparr>calls := calls st3 @
                  [DeleteComments (objectId object) (classId object) (objectSubId object)]\<rparr>
      in if objectSubId object = 0
         then st4\<lparr>calls := calls st4 @
                [deleteSharedDependencyRecordsFor (classId object) (objectId object)]\<rparr>
         else st4)"

text \<open>
  \<^verbatim>\<open>recursiveDeletion\<close>, and the loop of \<^verbatim>\<open>deleteDependentObjects\<close> over the tuples
  its scan returns: a tuple that a recursive call has deleted in the meantime is no
  longer good when the scan reaches it, and is passed over. \<open>fuel\<close> bounds the depth
  of the calls of \<^verbatim>\<open>recursiveDeletion\<close>.
\<close>

fun recursiveDeletion ::
    "nat \<Rightarrow> env \<Rightarrow> ObjectAddress \<Rightarrow> DropBehavior \<Rightarrow> elevel \<Rightarrow> ObjectAddress option \<Rightarrow>
     ObjectAddresses \<Rightarrow> catalog \<Rightarrow> (error + bool \<times> catalog) option"
  and deleteDependentObjects_scan ::
    "nat \<Rightarrow> env \<Rightarrow> ObjectAddress \<Rightarrow> string \<Rightarrow> DropBehavior \<Rightarrow> elevel \<Rightarrow> ObjectAddresses \<Rightarrow>
     pg_depend list \<Rightarrow> bool \<Rightarrow> catalog \<Rightarrow> (error + bool \<times> catalog) option"
  where
  "recursiveDeletion 0 e object behavior msglevel callingObject oktodelete st = None"
| "recursiveDeletion (Suc fuel) e object behavior msglevel callingObject oktodelete st =
     (case getObjectDescription e object of
        Inl err \<Rightarrow> Some (Inl err)
      | Inr (objDescription, reported) \<Rightarrow>
     (case recursiveDeletion_step1 e objDescription callingObject
             (scan_depender object (depRel st)) None (depRel st) of
        Inl err \<Rightarrow> Some (Inl err)
      | Inr (Some owningObject, rel) \<Rightarrow>
          (let st1 = st\<lparr>messages := messages st @ reported, depRel := rel\<rparr> in
           case (if object_address_present owningObject oktodelete
                 then with_ok True
                        (ereport_description e DEBUG2 (drop_auto_cascades_to owningObject)
                           owningObject st1)
                 else if behavior = DROP_RESTRICT
                 then with_ok False
                        (if msglevel = NOTICE \<and> Gp_role e = GP_ROLE_EXECUTE
                         then ereport_description e DEBUG1 (depends_on owningObject object)
                                owningObject st1
                         else ereport_description e msglevel (depends_on owningObject object)
                                owningObject st1)
                 else with_ok True
                        (if Gp_role e = GP_ROLE_EXECUTE
                         then ereport_description e DEBUG1 (drop_cascades_to owningObject)
                                owningObject st1
                         else ereport_description e msglevel (drop_cascades_to owningObject)
                                owningObject st1)) of
             Inl err \<Rightarrow> Some (Inl err)
           | Inr (ok, st2) \<Rightarrow>
               (case recursiveDeletion fuel e owningObject behavior msglevel (Some object)
                       oktodelete st2 of
                  None \<Rightarrow> None
                | Some (Inl err) \<Rightarrow> Some (Inl err)
                | Some (Inr (ok', st3)) \<Rightarrow> Some (Inr (if \<not> ok' then False else ok, st3))))
      | Inr (None, rel) \<Rightarrow>
          (case deleteDependentObjects_scan fuel e object objDescription behavior msglevel
                  oktodelete (scan_reference object rel) True
                  (st\<lparr>messages := messages st @ reported, depRel := rel\<rparr>) of
             None \<Rightarrow> None
           | Some (Inl err) \<Rightarrow> Some (Inl err)
           | Some (Inr (ok', st2)) \<Rightarrow>
               (case doDeletion e object of
                  Inl err \<Rightarrow> Some (Inl err)
                | Inr d \<Rightarrow> Some (Inr (ok', recursiveDeletion_step3 object d st2))))))"
| "deleteDependentObjects_scan fuel e object objDescription behavior msglevel oktodelete
     [] ok st = Some (Inr (ok, st))"
| "deleteDependentObjects_scan fuel e object objDescription behavior msglevel oktodelete
     (tup # tups) ok st =
     (if tup \<notin> set (depRel st)
      then deleteDependentObjects_scan fuel e object objDescription behavior msglevel
             oktodelete tups ok st
      else
       (let otherObject = dependent_object tup in
        if deptype tup = DEPENDENCY_NORMAL
        then
          (case (if object_address_present otherObject oktodelete
                 then with_ok ok
                        (ereport_description e DEBUG2 (drop_auto_cascades_to otherObject)
                           otherObject st)
                 else if behavior = DROP_RESTRICT
                 then with_ok False
                        (if msglevel = NOTICE \<and> Gp_role e = GP_ROLE_EXECUTE
                         then ereport_description e DEBUG1 (depends_on otherObject object)
                                otherObject st
                         else ereport_description e msglevel (depends_on otherObject object)
                                otherObject st)
                 else with_ok ok
                        (if Gp_role e = GP_ROLE_EXECUTE
                         then ereport_description e DEBUG1 (drop_cascades_to otherObject)
                                otherObject st
                         else ereport_description e msglevel (drop_cascades_to otherObject)
                                otherObject st)) of
             Inl err \<Rightarrow> Some (Inl err)
           | Inr (ok1, st1) \<Rightarrow>
               (case recursiveDeletion fuel e otherObject behavior msglevel (Some object)
                       oktodelete st1 of
                  None \<Rightarrow> None
                | Some (Inl err) \<Rightarrow> Some (Inl err)
                | Some (Inr (ok', st2)) \<Rightarrow>
                    deleteDependentObjects_scan fuel e object objDescription behavior msglevel
                      oktodelete tups (if \<not> ok' then False else ok1) st2))
        else if deptype tup = DEPENDENCY_AUTO \<or> deptype tup = DEPENDENCY_INTERNAL
        then
          (case ereport_description e DEBUG2 (drop_auto_cascades_to otherObject) otherObject st of
             Inl err \<Rightarrow> Some (Inl err)
           | Inr st1 \<Rightarrow>
               (case recursiveDeletion fuel e otherObject behavior msglevel (Some object)
                       oktodelete st1 of
                  None \<Rightarrow> None
                | Some (Inl err) \<Rightarrow> Some (Inl err)
                | Some (Inr (ok', st2)) \<Rightarrow>
                    deleteDependentObjects_scan fuel e object objDescription behavior msglevel
                      oktodelete tups (if \<not> ok' then False else ok) st2))
        else if deptype tup = DEPENDENCY_PIN
        then Some (Inl (cannot_drop_required_by_system objDescription))
        else Some (Inl (unrecognized_dependency_type (deptype tup) objDescription))))"

definition deleteDependentObjects ::
    "nat \<Rightarrow> env \<Rightarrow> ObjectAddress \<Rightarrow> string \<Rightarrow> DropBehavior \<Rightarrow> elevel \<Rightarrow> ObjectAddresses \<Rightarrow>
     catalog \<Rightarrow> (error + bool \<times> catalog) option" where
  "deleteDependentObjects fuel e object objDescription behavior msglevel oktodelete st =
     deleteDependentObjects_scan fuel e object objDescription behavior msglevel oktodelete
       (scan_reference object (depRel st)) True st"

subsection \<open>The entry points\<close>

definition performDeletion ::
    "nat \<Rightarrow> env \<Rightarrow> ObjectAddress \<Rightarrow> DropBehavior \<Rightarrow> catalog \<Rightarrow> (error + catalog) option" where
  "performDeletion fuel e object behavior st =
     (case getObjectDescription e object of
        Inl err \<Rightarrow> Some (Inl err)
      | Inr (objDescription, reported) \<Rightarrow>
     (case findAutoDeletableObjects fuel e object new_object_addresses (depRel st) True of
        None \<Rightarrow> None
      | Some (Inl err) \<Rightarrow> Some (Inl err)
      | Some (Inr oktodelete) \<Rightarrow>
     (case recursiveDeletion fuel e object behavior NOTICE None oktodelete
             (st\<lparr>messages := messages st @ reported, alreadyDeleted := None\<rparr>) of
        None \<Rightarrow> None
      | Some (Inl err) \<Rightarrow> Some (Inl err)
      | Some (Inr (ok, st')) \<Rightarrow>
          if \<not> ok then Some (Inl (cannot_drop_other_objects_depend objDescription))
          else Some (Inr st'))))"

text \<open>
  \<^verbatim>\<open>deleteWhatDependsOn\<close>: only Step 2, for the object itself, always with CASCADE.
\<close>

definition deleteWhatDependsOn ::
    "nat \<Rightarrow> env \<Rightarrow> ObjectAddress \<Rightarrow> bool \<Rightarrow> catalog \<Rightarrow> (error + catalog) option" where
  "deleteWhatDependsOn fuel e object showNotices st =
     (case getObjectDescription e object of
        Inl err \<Rightarrow> Some (Inl err)
      | Inr (objDescription, reported) \<Rightarrow>
     (case findAutoDeletableObjects fuel e object new_object_addresses (depRel st) True of
        None \<Rightarrow> None
      | Some (Inl err) \<Rightarrow> Some (Inl err)
      | Some (Inr oktodelete) \<Rightarrow>
     (case deleteDependentObjects fuel e object objDescription DROP_CASCADE
             (if showNotices then NOTICE else DEBUG2) oktodelete
             (st\<lparr>messages := messages st @ reported, alreadyDeleted := None\<rparr>) of
        None \<Rightarrow> None
      | Some (Inl err) \<Rightarrow> Some (Inl err)
      | Some (Inr (ok, st')) \<Rightarrow>
          if \<not> ok then Some (Inl (failed_to_drop_all_depending objDescription))
          else Some (Inr st'))))"

text \<open>
  \<^verbatim>\<open>performDeletionWithList\<close>: \<^verbatim>\<open>oktodelete\<close> comes from the caller and is extended
  in place, so it is returned too; \<^verbatim>\<open>alreadyDeleted\<close> is the array of the state.
\<close>

definition performDeletionWithList ::
    "nat \<Rightarrow> env \<Rightarrow> ObjectAddress \<Rightarrow> ObjectAddresses \<Rightarrow> DropBehavior \<Rightarrow> catalog \<Rightarrow>
     (error + ObjectAddresses \<times> catalog) option" where
  "performDeletionWithList fuel e object oktodelete behavior st =
     (case getObjectDescription e object of
        Inl err \<Rightarrow> Some (Inl err)
      | Inr (objDescription, reported) \<Rightarrow>
     (case findAutoDeletableObjects fuel e object oktodelete (depRel st) True of
        None \<Rightarrow> None
      | Some (Inl err) \<Rightarrow> Some (Inl err)
      | Some (Inr oktodelete') \<Rightarrow>
     (case recursiveDeletion fuel e object behavior NOTICE None oktodelete'
             (st\<lparr>messages := messages st @ reported\<rparr>) of
        None \<Rightarrow> None
      | Some (Inl err) \<Rightarrow> Some (Inl err)
      | Some (Inr (ok, st')) \<Rightarrow>
          if \<not> ok then Some (Inl (cannot_drop_other_objects_depend objDescription))
          else Some (Inr (oktodelete', st')))))"

text \<open>The two loops of \<^verbatim>\<open>performMultipleDeletions\<close> over \<^verbatim>\<open>objects->refs\<close>.\<close>

fun performMultipleDeletions_implicit ::
    "nat \<Rightarrow> env \<Rightarrow> ObjectAddress list \<Rightarrow> ObjectAddresses \<Rightarrow> pg_depend list \<Rightarrow>
     (error + ObjectAddresses) option" where
  "performMultipleDeletions_implicit fuel e [] implicit rel = Some (Inr implicit)"
| "performMultipleDeletions_implicit fuel e (obj # objs) implicit rel =
     (if object_address_present obj implicit
      then performMultipleDeletions_implicit fuel e objs implicit rel
      else (case findAutoDeletableObjects fuel e obj implicit rel False of
              None \<Rightarrow> None
            | Some (Inl err) \<Rightarrow> Some (Inl err)
            | Some (Inr implicit') \<Rightarrow>
                performMultipleDeletions_implicit fuel e objs implicit' rel))"

fun performMultipleDeletions_delete ::
    "nat \<Rightarrow> env \<Rightarrow> ObjectAddress list \<Rightarrow> ObjectAddresses \<Rightarrow> DropBehavior \<Rightarrow> catalog \<Rightarrow>
     (error + catalog) option" where
  "performMultipleDeletions_delete fuel e [] implicit behavior st = Some (Inr st)"
| "performMultipleDeletions_delete fuel e (obj # objs) implicit behavior st =
     (if (case alreadyDeleted st of None \<Rightarrow> False
          | Some already \<Rightarrow> object_address_present obj already)
      then performMultipleDeletions_delete fuel e objs implicit behavior st
      else if object_address_present obj implicit
      then performMultipleDeletions_delete fuel e objs implicit behavior st
      else (case performDeletionWithList fuel e obj implicit behavior st of
              None \<Rightarrow> None
            | Some (Inl err) \<Rightarrow> Some (Inl err)
            | Some (Inr (implicit', st')) \<Rightarrow>
                performMultipleDeletions_delete fuel e objs implicit' behavior st'))"

definition performMultipleDeletions ::
    "nat \<Rightarrow> env \<Rightarrow> ObjectAddresses \<Rightarrow> DropBehavior \<Rightarrow> catalog \<Rightarrow> (error + catalog) option" where
  "performMultipleDeletions fuel e objects behavior st =
     (case performMultipleDeletions_implicit fuel e objects new_object_addresses (depRel st) of
        None \<Rightarrow> None
      | Some (Inl err) \<Rightarrow> Some (Inl err)
      | Some (Inr implicit) \<Rightarrow>
          performMultipleDeletions_delete fuel e objects implicit behavior
            (st\<lparr>alreadyDeleted := Some new_object_addresses\<rparr>))"

section \<open>A concrete environment and concrete catalog states\<close>

text \<open>
  An environment for the concrete runs below: catalog OIDs as they are numbered in the
  system catalogs, assertions compiled in, every relation an ordinary table, every
  description found, and messages output from level \<^verbatim>\<open>NOTICE\<close> on. \<open>func n\<close> is the function with OID \<open>n\<close>, and
  \<open>func_depends i a b k\<close> the tuple number \<open>i\<close> that makes function \<open>a\<close> depend on
  function \<open>b\<close> with type \<open>k\<close>.
\<close>

definition example_classes :: "ObjectClass \<Rightarrow> Oid" where
  "example_classes c = (case c of
      OCLASS_CLASS \<Rightarrow> 1259 | OCLASS_PROC \<Rightarrow> 1255 | OCLASS_TYPE \<Rightarrow> 1247 | OCLASS_CAST \<Rightarrow> 2605
    | OCLASS_CONSTRAINT \<Rightarrow> 2606 | OCLASS_CONVERSION \<Rightarrow> 2607 | OCLASS_DEFAULT \<Rightarrow> 2604
    | OCLASS_LANGUAGE \<Rightarrow> 2612 | OCLASS_OPERATOR \<Rightarrow> 2617 | OCLASS_OPCLASS \<Rightarrow> 2616
    | OCLASS_REWRITE \<Rightarrow> 2618 | OCLASS_TRIGGER \<Rightarrow> 2620 | OCLASS_SCHEMA \<Rightarrow> 2615
    | OCLASS_ROLE \<Rightarrow> 1260 | OCLASS_DATABASE \<Rightarrow> 1262 | OCLASS_TBLSPACE \<Rightarrow> 1213
    | OCLASS_FILESPACE \<Rightarrow> 5009 | OCLASS_FILESYSTEM \<Rightarrow> 7076 | OCLASS_FDW \<Rightarrow> 2898
    | OCLASS_FOREIGN_SERVER \<Rightarrow> 2899 | OCLASS_USER_MAPPING \<Rightarrow> 2895
    | OCLASS_EXTPROTOCOL \<Rightarrow> 7175 | OCLASS_COMPRESSION \<Rightarrow> 3056)"

definition example_env :: env where
  "example_env = \<lparr>object_classes = example_classes, assert_checking = True,
     Gp_role = GP_ROLE_DISPATCH, get_rel_relkind = (\<lambda>relid. CHR ''r''),
     describe_class = (\<lambda>c a. Some ''object''), errstart = (\<lambda>lvl. lvl = NOTICE)\<rparr>"

definition func :: "Oid \<Rightarrow> ObjectAddress" where
  "func n = \<lparr>classId = 1255, objectId = n, objectSubId = 0\<rparr>"

definition func_depends :: "nat \<Rightarrow> Oid \<Rightarrow> Oid \<Rightarrow> char \<Rightarrow> pg_depend" where
  "func_depends i a b k = \<lparr>t_self = i, classid = 1255, objid = a, objsubid = 0,
     refclassid = 1255, refobjid = b, refobjsubid = 0, deptype = k\<rparr>"

definition catalog_of :: "pg_depend list \<Rightarrow> catalog" where
  "catalog_of rel = \<lparr>depRel = rel, calls = [], messages = [], deleted = [], alreadyDeleted = None\<rparr>"


section \<open>Auxiliary notions for the proofs\<close>

text \<open>
  Two addresses name the same object when class and object id agree; \<open>addr_le\<close> is
  the order the comparator sorts by; \<open>dedup_sorted\<close> is the loop above read as a
  recursion on the sorted array (shown equal to it below).
\<close>

definition same_object :: "ObjectAddress \<Rightarrow> ObjectAddress \<Rightarrow> bool" where
  "same_object a b \<longleftrightarrow> classId a = classId b \<and> objectId a = objectId b"

definition addr_le :: "ObjectAddress \<Rightarrow> ObjectAddress \<Rightarrow> bool" where
  "addr_le a b \<longleftrightarrow> object_address_comparator a b \<le> 0"

fun dedup_sorted :: "ObjectAddress list \<Rightarrow> ObjectAddress list" where
  "dedup_sorted [] = []"
| "dedup_sorted [a] = [a]"
| "dedup_sorted (a # b # rest) =
     (if a = b \<or> (same_object a b \<and> objectSubId a = 0) then dedup_sorted (b # rest)
      else a # dedup_sorted (b # rest))"

definition addr_rel :: "ObjectAddress \<Rightarrow> ObjectAddress \<Rightarrow> bool" where
  "addr_rel a b \<longleftrightarrow> object_address_comparator a b < 0 \<and>
     (same_object a b \<longrightarrow> objectSubId a \<noteq> 0 \<and> objectSubId b \<noteq> 0)"

definition whole_absorbed :: "ObjectAddress list \<Rightarrow> ObjectAddress \<Rightarrow> bool" where
  "whole_absorbed xs a \<longleftrightarrow>
     objectSubId a = 0 \<and> (\<exists>b \<in> set xs. same_object a b \<and> objectSubId b \<noteq> 0)"


text \<open>The object classes in the order of the switch of \<^verbatim>\<open>getObjectClass\<close>.\<close>

definition all_classes :: "ObjectClass list" where
  "all_classes = [OCLASS_CLASS, OCLASS_PROC, OCLASS_TYPE, OCLASS_CAST, OCLASS_CONSTRAINT,
     OCLASS_CONVERSION, OCLASS_DEFAULT, OCLASS_LANGUAGE, OCLASS_OPERATOR, OCLASS_OPCLASS,
     OCLASS_REWRITE, OCLASS_TRIGGER, OCLASS_SCHEMA, OCLASS_ROLE, OCLASS_DATABASE,
     OCLASS_TBLSPACE, OCLASS_FILESPACE, OCLASS_FILESYSTEM, OCLASS_FDW,
     OCLASS_FOREIGN_SERVER, OCLASS_USER_MAPPING, OCLASS_EXTPROTOCOL, OCLASS_COMPRESSION]"

text \<open>The messages reported at level \<^verbatim>\<open>NOTICE\<close>, in order.\<close>

definition notices :: "catalog \<Rightarrow> message list" where
  "notices st = map snd (filter (\<lambda>(lvl, m). lvl = NOTICE) (messages st))"

text \<open>Three functions, each an internal part of the next.\<close>

definition internal_cycle :: "pg_depend list" where
  "internal_cycle = [func_depends 11 2 3 DEPENDENCY_INTERNAL, func_depends 12 3 4 DEPENDENCY_INTERNAL,
                     func_depends 13 4 2 DEPENDENCY_INTERNAL]"

text \<open>
  The test of case 2 of the INTERNAL branch of Step 1, and the INTERNAL tuples that
  fail it (case 3).
\<close>

definition caller_matches :: "ObjectAddress \<Rightarrow> ObjectAddress \<Rightarrow> bool" where
  "caller_matches caller otherObject \<longleftrightarrow>
     classId caller = classId otherObject \<and> objectId caller = objectId otherObject \<and>
     (objectSubId caller = objectSubId otherObject \<or> objectSubId caller = 0)"

definition kept_internal :: "ObjectAddress \<Rightarrow> pg_depend \<Rightarrow> bool" where
  "kept_internal caller tup \<longleftrightarrow>
     deptype tup = DEPENDENCY_INTERNAL \<and> \<not> caller_matches caller (referenced_object tup)"


fun is_violation :: "message \<Rightarrow> bool" where
  "is_violation (depends_on a b) = True"
| "is_violation m = False"

definition violations :: "catalog \<Rightarrow> message list" where
  "violations st = filter is_violation (map snd (messages st))"



text \<open>
  For the messages: a list of reports is quiet when it holds nothing but the notice of
  \<^verbatim>\<open>getObjectDescription\<close>; \<open>report\<close> appends reports to the state; the levels at
  which a violation and a cascade are reported; and the report made where the deletion
  moves on to another object, at the owner of Step 1 and at a tuple of the scan of
  Step 2.
\<close>

definition quiet :: "(elevel \<times> message) list \<Rightarrow> bool" where
  "quiet ns \<longleftrightarrow> set ns \<subseteq> {(NOTICE, NOT_YET_IMPLEMENTED)}"

definition report :: "(elevel \<times> message) list \<Rightarrow> catalog \<Rightarrow> catalog" where
  "report ns st = st\<lparr>messages := messages st @ ns\<rparr>"

definition restrict_level :: "env \<Rightarrow> elevel \<Rightarrow> elevel" where
  "restrict_level e msglevel =
     (if msglevel = NOTICE \<and> Gp_role e = GP_ROLE_EXECUTE then DEBUG1 else msglevel)"

definition cascade_level :: "env \<Rightarrow> elevel \<Rightarrow> elevel" where
  "cascade_level e msglevel = (if Gp_role e = GP_ROLE_EXECUTE then DEBUG1 else msglevel)"

definition site_report ::
    "env \<Rightarrow> DropBehavior \<Rightarrow> elevel \<Rightarrow> ObjectAddresses \<Rightarrow> ObjectAddress \<Rightarrow> ObjectAddress \<Rightarrow>
     elevel \<times> message" where
  "site_report e behavior msglevel oktodelete other object =
     (if object_address_present other oktodelete then (DEBUG2, drop_auto_cascades_to other)
      else if behavior = DROP_RESTRICT
      then (restrict_level e msglevel, depends_on other object)
      else (cascade_level e msglevel, drop_cascades_to other))"

definition tuple_report ::
    "env \<Rightarrow> DropBehavior \<Rightarrow> elevel \<Rightarrow> ObjectAddresses \<Rightarrow> pg_depend \<Rightarrow> ObjectAddress \<Rightarrow>
     elevel \<times> message" where
  "tuple_report e behavior msglevel oktodelete tup object =
     (if deptype tup = DEPENDENCY_NORMAL
      then site_report e behavior msglevel oktodelete (dependent_object tup) object
      else (DEBUG2, drop_auto_cascades_to (dependent_object tup)))"

text \<open>
  An object is pinned when a PIN tuple of \<^verbatim>\<open>pg_depend\<close> references it in the sense
  of the scans (a whole object also through its sub-objects). \<open>keeps_pins\<close>: the
  second relation has lost tuples of the first, but no PIN tuple. \<open>pin_safe\<close>: no
  object deleted so far is pinned.
\<close>

definition pinned :: "pg_depend list \<Rightarrow> ObjectAddress \<Rightarrow> bool" where
  "pinned rel object \<longleftrightarrow>
     (\<exists>tup \<in> set rel. deptype tup = DEPENDENCY_PIN \<and>
        refclassid tup = classId object \<and> refobjid tup = objectId object \<and>
        (objectSubId object \<noteq> 0 \<longrightarrow> refobjsubid tup = objectSubId object))"

definition keeps_pins :: "pg_depend list \<Rightarrow> pg_depend list \<Rightarrow> bool" where
  "keeps_pins rel rel' \<longleftrightarrow>
     set rel' \<subseteq> set rel \<and> (\<forall>t \<in> set rel. deptype t = DEPENDENCY_PIN \<longrightarrow> t \<in> set rel')"

definition pin_safe :: "catalog \<Rightarrow> bool" where
  "pin_safe st \<longleftrightarrow> (\<forall>object \<in> set (deleted st). \<not> pinned (depRel st) object)"

text \<open>
  For the pre-scan: the addresses an array makes present, the number of dependent
  objects not yet present (which bounds the depth of the recursion), the dependency
  types the switches know, the objects the pre-scan can recurse into, and the errors
  it can raise.
\<close>

definition present_set :: "ObjectAddresses \<Rightarrow> ObjectAddress set" where
  "present_set S = {a. object_address_present a S}"

definition unvisited :: "pg_depend list \<Rightarrow> ObjectAddresses \<Rightarrow> nat" where
  "unvisited rel S = card (dependent_object ` set rel - present_set S)"

definition recognized :: "char \<Rightarrow> bool" where
  "recognized c \<longleftrightarrow> c = DEPENDENCY_NORMAL \<or> c = DEPENDENCY_AUTO \<or> c = DEPENDENCY_INTERNAL \<or>
     c = DEPENDENCY_PIN"




text \<open>
  \<open>thinned\<close>: the second relation is the first with some tuples removed, in the same
  order. \<open>no_internal\<close>: a relation without INTERNAL tuples.
\<close>

definition thinned :: "pg_depend list \<Rightarrow> pg_depend list \<Rightarrow> bool" where
  "thinned rel rel' \<longleftrightarrow> (\<exists>P. rel' = filter P rel)"

definition no_internal :: "pg_depend list \<Rightarrow> bool" where
  "no_internal rel \<longleftrightarrow> (\<forall>t \<in> set rel. deptype t \<noteq> DEPENDENCY_INTERNAL)"

text \<open>
  \<open>grown\<close>: the second state is the first after more of the deletion: tuples have
  gone from \<^verbatim>\<open>pg_depend\<close>, none of them a PIN tuple, and calls, messages and deleted
  objects have been added at the end.
\<close>

definition grown :: "catalog \<Rightarrow> catalog \<Rightarrow> bool" where
  "grown st st' \<longleftrightarrow>
     thinned (depRel st) (depRel st') \<and> keeps_pins (depRel st) (depRel st') \<and>
     prefix (calls st) (calls st') \<and> prefix (messages st) (messages st') \<and>
     prefix (deleted st) (deleted st')"

section \<open>Properties of the address arrays\<close>

lemma object_address_present_loop_iff:
  "object_address_present_loop q xs \<longleftrightarrow>
     (\<exists>a \<in> set xs. classId a = classId q \<and> objectId a = objectId q \<and>
        (objectSubId a = objectSubId q \<or> objectSubId a = 0))"
  by (induction xs) auto

text \<open>
  C7: \<^verbatim>\<open>object_address_present(q, S)\<close> is true exactly when some entry of \<open>S\<close> has the
  class and object id of \<open>q\<close> and either the sub-id of \<open>q\<close> or sub-id 0. So a
  whole-object entry \<open>(c, o, 0)\<close> makes every \<open>(c, o, k)\<close> present, while an entry
  \<open>(c, o, 1)\<close> alone does not make \<open>(c, o, 0)\<close> present.
\<close>

theorem object_address_present_subsumption:
  "(object_address_present q S \<longleftrightarrow>
     (\<exists>a \<in> set S. classId a = classId q \<and> objectId a = objectId q \<and>
        (objectSubId a = objectSubId q \<or> objectSubId a = 0)))
   \<and> (\<lparr>classId = c, objectId = oid, objectSubId = 0\<rparr> \<in> set S \<longrightarrow>
        object_address_present \<lparr>classId = c, objectId = oid, objectSubId = k\<rparr> S)
   \<and> (\<exists>S'. \<lparr>classId = c, objectId = oid, objectSubId = 1\<rparr> \<in> set S' \<and>
        \<not> object_address_present \<lparr>classId = c, objectId = oid, objectSubId = 0\<rparr> S')"
proof (intro conjI impI)
  show "object_address_present q S \<longleftrightarrow>
     (\<exists>a \<in> set S. classId a = classId q \<and> objectId a = objectId q \<and>
        (objectSubId a = objectSubId q \<or> objectSubId a = 0))"
    by (simp add: object_address_present_def object_address_present_loop_iff)
next
  assume "\<lparr>classId = c, objectId = oid, objectSubId = 0\<rparr> \<in> set S"
  then show "object_address_present \<lparr>classId = c, objectId = oid, objectSubId = k\<rparr> S"
    by (force simp: object_address_present_def object_address_present_loop_iff)
next
  have "\<lparr>classId = c, objectId = oid, objectSubId = 1\<rparr>
          \<in> set [\<lparr>classId = c, objectId = oid, objectSubId = 1\<rparr>] \<and>
        \<not> object_address_present \<lparr>classId = c, objectId = oid, objectSubId = 0\<rparr>
            [\<lparr>classId = c, objectId = oid, objectSubId = 1\<rparr>]"
    by (simp add: object_address_present_def)
  then show "\<exists>S'. \<lparr>classId = c, objectId = oid, objectSubId = 1\<rparr> \<in> set S' \<and>
        \<not> object_address_present \<lparr>classId = c, objectId = oid, objectSubId = 0\<rparr> S'"
    by blast
qed

theorem object_address_present_subsumption_witness:
  "\<lparr>classId = 1259, objectId = 16384, objectSubId = 0\<rparr>
      \<in> set [\<lparr>classId = 1247, objectId = 23, objectSubId = 0\<rparr>,
              \<lparr>classId = 1259, objectId = 16384, objectSubId = 0\<rparr>]
   \<and> object_address_present \<lparr>classId = 1259, objectId = 16384, objectSubId = 3\<rparr>
        [\<lparr>classId = 1247, objectId = 23, objectSubId = 0\<rparr>,
         \<lparr>classId = 1259, objectId = 16384, objectSubId = 0\<rparr>]"
  using object_address_present_subsumption
    [of "\<lparr>classId = 1259, objectId = 16384, objectSubId = 3\<rparr>"
        "[\<lparr>classId = 1247, objectId = 23, objectSubId = 0\<rparr>,
          \<lparr>classId = 1259, objectId = 16384, objectSubId = 0\<rparr>]"
        1259 16384 3]
  by simp


lemma addr_le_refl: "addr_le a a"
  by (simp add: addr_le_def object_address_comparator_def)

lemma addr_le_total: "addr_le a b \<or> addr_le b a"
  by (auto simp: addr_le_def object_address_comparator_def)

lemma addr_le_trans: "addr_le a b \<Longrightarrow> addr_le b c \<Longrightarrow> addr_le a c"
  by (auto simp: addr_le_def object_address_comparator_def split: if_splits)

lemma addr_le_antisym: "addr_le a b \<Longrightarrow> addr_le b a \<Longrightarrow> a = (b :: ObjectAddress)"
  by (cases a, cases b) (auto simp: addr_le_def object_address_comparator_def split: if_splits)

lemma set_qsort_insert: "set (qsort_insert cmp x ys) = insert x (set ys)"
  by (induction ys) auto

lemma set_qsort: "set (qsort cmp xs) = set xs"
  by (induction xs) (auto simp: set_qsort_insert)

lemma length_qsort_insert: "length (qsort_insert cmp x ys) = Suc (length ys)"
  by (induction ys) auto

lemma length_qsort: "length (qsort cmp xs) = length xs"
  by (induction xs) (auto simp: length_qsort_insert)

lemma sorted_qsort_insert:
  "sorted_wrt addr_le ys \<Longrightarrow> sorted_wrt addr_le (qsort_insert object_address_comparator x ys)"
proof (induction ys)
  case Nil
  then show ?case by simp
next
  case (Cons y ys)
  show ?case
  proof (cases "object_address_comparator x y \<le> 0")
    case True
    then have "addr_le x y" by (simp add: addr_le_def)
    with Cons.prems True show ?thesis
      by (auto intro: addr_le_trans)
  next
    case False
    then have "addr_le y x" using addr_le_total[of x y] by (simp add: addr_le_def)
    with Cons False show ?thesis
      by (auto simp: set_qsort_insert)
  qed
qed

lemma sorted_qsort: "sorted_wrt addr_le (qsort object_address_comparator xs)"
  by (induction xs) (auto intro: sorted_qsort_insert)

lemma remove_dups_loop_eq:
  "remove_dups_loop kept priorobj rest = kept @ dedup_sorted (priorobj # rest)"
proof (induction rest arbitrary: kept priorobj)
  case Nil
  then show ?case by simp
next
  case (Cons t rest)
  have eq: "classId priorobj = classId t \<Longrightarrow> objectId priorobj = objectId t \<Longrightarrow>
            objectSubId priorobj = objectSubId t \<Longrightarrow> priorobj = t"
    by (cases priorobj, cases t) simp
  have upd: "classId priorobj = classId t \<Longrightarrow> objectId priorobj = objectId t \<Longrightarrow>
            priorobj\<lparr>objectSubId := objectSubId t\<rparr> = t"
    by (cases priorobj, cases t) simp
  show ?case
  proof (cases "classId priorobj = classId t \<and> objectId priorobj = objectId t")
    case False
    then show ?thesis by (auto simp: Cons.IH same_object_def)
  next
    case same: True
    show ?thesis
    proof (cases "objectSubId priorobj = objectSubId t")
      case True
      with same eq have "priorobj = t" by simp
      then show ?thesis by (simp add: Cons.IH)
    next
      case diff: False
      show ?thesis
      proof (cases "objectSubId priorobj = 0")
        case True
        from same upd have u: "priorobj\<lparr>objectSubId := objectSubId t\<rparr> = t" by simp
        have "remove_dups_loop kept priorobj (t # rest) =
                remove_dups_loop kept (priorobj\<lparr>objectSubId := objectSubId t\<rparr>) rest"
          using same diff True by simp
        also have "\<dots> = remove_dups_loop kept t rest" by (simp only: u)
        also have "\<dots> = kept @ dedup_sorted (t # rest)" by (rule Cons.IH)
        finally show ?thesis using same True by (simp add: same_object_def)
      next
        case False
        with same diff show ?thesis by (auto simp: Cons.IH same_object_def)
      qed
    qed
  qed
qed


lemma dedup_sorted_subset: "set (dedup_sorted xs) \<subseteq> set xs"
  by (induction xs rule: dedup_sorted.induct) auto

lemma addr_le_same_object_mid:
  "addr_le a b \<Longrightarrow> addr_le b c \<Longrightarrow> same_object a c \<Longrightarrow> same_object a b"
  by (auto simp: addr_le_def same_object_def object_address_comparator_def split: if_splits)

lemma addr_rel_step:
  assumes ab: "addr_le a b" and bx: "addr_le b x" and ne: "a \<noteq> b"
    and keep: "\<not> (same_object a b \<and> objectSubId a = 0)"
  shows "addr_rel a x"
proof -
  have lt: "object_address_comparator a x < 0"
  proof -
    have "addr_le a x" using ab bx by (rule addr_le_trans)
    moreover have "a \<noteq> x"
    proof
      assume "a = x"
      with bx have "addr_le b a" by simp
      with ab have "a = b" by (rule addr_le_antisym)
      with ne show False by simp
    qed
    ultimately show ?thesis
      using addr_le_antisym[of a x]
      by (auto simp: addr_le_def object_address_comparator_def split: if_splits)
  qed
  have "objectSubId a \<noteq> 0 \<and> objectSubId x \<noteq> 0" if so: "same_object a x"
  proof -
    from ab bx so have "same_object a b" by (rule addr_le_same_object_mid)
    with keep have a0: "objectSubId a \<noteq> 0" by simp
    from lt so have "objectSubId a < objectSubId x"
      by (auto simp: same_object_def object_address_comparator_def split: if_splits)
    then have "objectSubId x \<noteq> 0" by (metis not_less_iff_gr_or_eq word_gt_0)
    with a0 show ?thesis by simp
  qed
  with lt show ?thesis by (simp add: addr_rel_def)
qed

lemma dedup_sorted_rel:
  "sorted_wrt addr_le xs \<Longrightarrow> sorted_wrt addr_rel (dedup_sorted xs)"
proof (induction xs rule: dedup_sorted.induct)
  case 1
  then show ?case by simp
next
  case (2 a)
  then show ?case by simp
next
  case (3 a b rest)
  from "3.prems" have srt: "sorted_wrt addr_le (b # rest)" and ab: "addr_le a b"
    by auto
  show ?case
  proof (cases "a = b \<or> (same_object a b \<and> objectSubId a = 0)")
    case True
    then show ?thesis using "3.IH"(1) srt by simp
  next
    case False
    have "addr_rel a x" if "x \<in> set (dedup_sorted (b # rest))" for x
    proof -
      from that dedup_sorted_subset have "x \<in> set (b # rest)" by blast
      with srt have "addr_le b x" by (auto simp: addr_le_refl)
      with ab False show ?thesis by (intro addr_rel_step[of a b x]) auto
    qed
    then show ?thesis using False "3.IH"(2) srt by simp
  qed
qed


lemma addr_le_sub_zero:
  "addr_le a x \<Longrightarrow> same_object a x \<Longrightarrow> objectSubId x = 0 \<Longrightarrow> objectSubId a = 0"
  by (auto simp: addr_le_def same_object_def object_address_comparator_def word_gt_0
      split: if_splits)

lemma same_object_sym: "same_object a b \<Longrightarrow> same_object b a"
  by (simp add: same_object_def)

lemma dedup_sorted_set:
  "sorted_wrt addr_le xs \<Longrightarrow>
     set (dedup_sorted xs) = {a \<in> set xs. \<not> whole_absorbed xs a}"
proof (induction xs rule: dedup_sorted.induct)
  case 1
  then show ?case by simp
next
  case (2 a)
  then show ?case by (auto simp: whole_absorbed_def)
next
  case (3 a b rest)
  from "3.prems" have srt: "sorted_wrt addr_le (b # rest)" and ab: "addr_le a b"
    by auto
  have ax: "addr_le a x" if "x \<in> set (b # rest)" for x
    using that "3.prems" by auto
  have bx: "addr_le b x" if "x \<in> set (b # rest)" for x
    using that srt by (auto simp: addr_le_refl)
  have A: "whole_absorbed (a # b # rest) x \<longleftrightarrow> whole_absorbed (b # rest) x"
    if "x \<in> set (b # rest)" for x
  proof -
    have "objectSubId a = 0" if "objectSubId x = 0" "same_object x a"
      using addr_le_sub_zero[OF ax[OF \<open>x \<in> set (b # rest)\<close>]] that same_object_sym by blast
    then show ?thesis by (auto simp: whole_absorbed_def)
  qed
  show ?case
  proof (cases "a = b")
    case True
    then have "set (dedup_sorted (a # b # rest)) = set (dedup_sorted (b # rest))" by simp
    also have "\<dots> = {x \<in> set (b # rest). \<not> whole_absorbed (b # rest) x}"
      using "3.IH"(1) True srt by simp
    also have "\<dots> = {x \<in> set (b # rest). \<not> whole_absorbed (a # b # rest) x}"
      using A by blast
    also have "\<dots> = {x \<in> set (a # b # rest). \<not> whole_absorbed (a # b # rest) x}"
      using True by auto
    finally show ?thesis .
  next
    case ne: False
    show ?thesis
    proof (cases "same_object a b \<and> objectSubId a = 0")
      case True
      have b0: "objectSubId b \<noteq> 0"
      proof
        assume "objectSubId b = 0"
        with True have "a = b" by (cases a, cases b) (simp add: same_object_def)
        with ne show False by simp
      qed
      then have absorbed: "whole_absorbed (a # b # rest) a"
        using True by (auto simp: whole_absorbed_def)
      have "set (dedup_sorted (a # b # rest)) = set (dedup_sorted (b # rest))"
        using True by simp
      also have "\<dots> = {x \<in> set (b # rest). \<not> whole_absorbed (b # rest) x}"
        using "3.IH"(1) True srt by simp
      also have "\<dots> = {x \<in> set (b # rest). \<not> whole_absorbed (a # b # rest) x}"
        using A by blast
      also have "\<dots> = {x \<in> set (a # b # rest). \<not> whole_absorbed (a # b # rest) x}"
        using absorbed by auto
      finally show ?thesis .
    next
      case False
      have notabs: "\<not> whole_absorbed (a # b # rest) a"
      proof
        assume abs: "whole_absorbed (a # b # rest) a"
        then obtain y where y: "y \<in> set (a # b # rest)" "same_object a y" "objectSubId y \<noteq> 0"
          and a0: "objectSubId a = 0"
          by (auto simp: whole_absorbed_def)
        from y a0 have "y \<in> set (b # rest)" by auto
        then have "addr_le b y" by (rule bx)
        with ab y(2) have "same_object a b" using addr_le_same_object_mid by blast
        with False a0 show False by simp
      qed
      have "set (dedup_sorted (a # b # rest)) = insert a (set (dedup_sorted (b # rest)))"
        using False ne by auto
      also have "\<dots> = insert a {x \<in> set (b # rest). \<not> whole_absorbed (b # rest) x}"
        using "3.IH"(2) False ne srt by auto
      also have "\<dots> = insert a {x \<in> set (b # rest). \<not> whole_absorbed (a # b # rest) x}"
        using A by blast
      also have "\<dots> = {x \<in> set (a # b # rest). \<not> whole_absorbed (a # b # rest) x}"
        using notabs by auto
      finally show ?thesis .
    qed
  qed
qed

lemma whole_absorbed_cong: "set xs = set ys \<Longrightarrow> whole_absorbed xs a = whole_absorbed ys a"
  by (simp add: whole_absorbed_def)

lemma eliminate_duplicate_dependencies_sorted:
  "eliminate_duplicate_dependencies S =
     (if length S \<le> 1 then S else dedup_sorted (qsort object_address_comparator S))"
proof (cases "length S \<le> 1")
  case True
  then show ?thesis by (simp add: eliminate_duplicate_dependencies_def)
next
  case False
  then show ?thesis
    by (cases "qsort object_address_comparator S")
       (simp_all add: eliminate_duplicate_dependencies_def remove_dups_loop_eq)
qed

lemma eliminate_duplicate_dependencies_rel:
  "sorted_wrt addr_rel (eliminate_duplicate_dependencies S)"
proof (cases "length S \<le> 1")
  case True
  then have "S = [] \<or> (\<exists>a. S = [a])" by (cases S) auto
  then show ?thesis by (auto simp: eliminate_duplicate_dependencies_def)
next
  case False
  then show ?thesis
    by (simp add: eliminate_duplicate_dependencies_sorted dedup_sorted_rel sorted_qsort)
qed

lemma eliminate_duplicate_dependencies_set:
  "set (eliminate_duplicate_dependencies S) = {a \<in> set S. \<not> whole_absorbed S a}"
proof (cases "length S \<le> 1")
  case True
  then have "S = [] \<or> (\<exists>a. S = [a])" by (cases S) auto
  then show ?thesis by (auto simp: eliminate_duplicate_dependencies_def whole_absorbed_def)
next
  case False
  have "set (dedup_sorted (qsort object_address_comparator S)) =
          {a \<in> set (qsort object_address_comparator S).
             \<not> whole_absorbed (qsort object_address_comparator S) a}"
    by (rule dedup_sorted_set) (rule sorted_qsort)
  also have "\<dots> = {a \<in> set S. \<not> whole_absorbed S a}"
    using whole_absorbed_cong[OF set_qsort[of object_address_comparator S]]
    by (simp add: set_qsort)
  finally show ?thesis using False by (simp add: eliminate_duplicate_dependencies_sorted)
qed


lemma sorted_wrt_irrefl_distinct:
  "sorted_wrt P xs \<Longrightarrow> (\<forall>a. \<not> P a a) \<Longrightarrow> distinct xs"
  by (induction xs) auto

text \<open>
  C6 (amended): in the result of \<^verbatim>\<open>eliminate_duplicate_dependencies\<close> no two entries
  share class and object id unless both have a sub-id different from 0; the result has
  no duplicates, is strictly ascending in the comparator's order, and consists of the
  entries of the input except the whole-object entries \<open>(c, o, 0)\<close> for which the
  input also holds some \<open>(c, o, k)\<close> with \<open>k \<noteq> 0\<close>.
\<close>

theorem eliminate_duplicate_dependencies_law:
  "(\<forall>i j. i < j \<and> j < length (eliminate_duplicate_dependencies S) \<and>
       classId (eliminate_duplicate_dependencies S ! i) =
         classId (eliminate_duplicate_dependencies S ! j) \<and>
       objectId (eliminate_duplicate_dependencies S ! i) =
         objectId (eliminate_duplicate_dependencies S ! j) \<longrightarrow>
       objectSubId (eliminate_duplicate_dependencies S ! i) \<noteq> 0 \<and>
       objectSubId (eliminate_duplicate_dependencies S ! j) \<noteq> 0)
   \<and> distinct (eliminate_duplicate_dependencies S)
   \<and> sorted_wrt (\<lambda>a b. object_address_comparator a b < 0)
         (eliminate_duplicate_dependencies S)
   \<and> set (eliminate_duplicate_dependencies S) =
        {a \<in> set S. \<not> (objectSubId a = 0 \<and>
           (\<exists>b \<in> set S. classId b = classId a \<and> objectId b = objectId a \<and>
              objectSubId b \<noteq> 0))}"
proof -
  let ?R = "eliminate_duplicate_dependencies S"
  have rel: "sorted_wrt addr_rel ?R" by (rule eliminate_duplicate_dependencies_rel)
  have pair: "addr_rel (?R ! i) (?R ! j)" if "i < j" "j < length ?R" for i j
    using rel that by (simp add: sorted_wrt_iff_nth_less)
  have c1: "\<forall>i j. i < j \<and> j < length ?R \<and> classId (?R ! i) = classId (?R ! j) \<and>
       objectId (?R ! i) = objectId (?R ! j) \<longrightarrow>
       objectSubId (?R ! i) \<noteq> 0 \<and> objectSubId (?R ! j) \<noteq> 0"
    using pair unfolding addr_rel_def same_object_def by blast
  have lt: "sorted_wrt (\<lambda>a b. object_address_comparator a b < 0) ?R"
    by (rule sorted_wrt_mono_rel[OF _ rel]) (simp add: addr_rel_def)
  have "object_address_comparator a a = 0" for a
    by (simp add: object_address_comparator_def)
  then have dist: "distinct ?R"
    using sorted_wrt_irrefl_distinct[OF lt] by simp
  have st: "set ?R = {a \<in> set S. \<not> (objectSubId a = 0 \<and>
           (\<exists>b \<in> set S. classId b = classId a \<and> objectId b = objectId a \<and>
              objectSubId b \<noteq> 0))}"
    unfolding eliminate_duplicate_dependencies_set
    by (auto simp: whole_absorbed_def same_object_def)
  from c1 dist lt st show ?thesis by blast
qed

theorem eliminate_duplicate_dependencies_law_witness:
  "(0::nat) < 1 \<and> 1 < length (eliminate_duplicate_dependencies
       [\<lparr>classId = 1259, objectId = 5, objectSubId = 2\<rparr>,
        \<lparr>classId = 1259, objectId = 5, objectSubId = 0\<rparr>,
        \<lparr>classId = 1259, objectId = 5, objectSubId = 1\<rparr>,
        \<lparr>classId = 1259, objectId = 5, objectSubId = 2\<rparr>])
   \<and> eliminate_duplicate_dependencies
       [\<lparr>classId = 1259, objectId = 5, objectSubId = 2\<rparr>,
        \<lparr>classId = 1259, objectId = 5, objectSubId = 0\<rparr>,
        \<lparr>classId = 1259, objectId = 5, objectSubId = 1\<rparr>,
        \<lparr>classId = 1259, objectId = 5, objectSubId = 2\<rparr>] =
       [\<lparr>classId = 1259, objectId = 5, objectSubId = 1\<rparr>,
        \<lparr>classId = 1259, objectId = 5, objectSubId = 2\<rparr>]
   \<and> \<lparr>classId = 1259, objectId = 5, objectSubId = 0\<rparr> \<notin> set (eliminate_duplicate_dependencies
       [\<lparr>classId = 1259, objectId = 5, objectSubId = 2\<rparr>,
        \<lparr>classId = 1259, objectId = 5, objectSubId = 0\<rparr>,
        \<lparr>classId = 1259, objectId = 5, objectSubId = 1\<rparr>,
        \<lparr>classId = 1259, objectId = 5, objectSubId = 2\<rparr>])"
  using eliminate_duplicate_dependencies_law
    [of "[\<lparr>classId = 1259, objectId = 5, objectSubId = 2\<rparr>,
        \<lparr>classId = 1259, objectId = 5, objectSubId = 0\<rparr>,
        \<lparr>classId = 1259, objectId = 5, objectSubId = 1\<rparr>,
        \<lparr>classId = 1259, objectId = 5, objectSubId = 2\<rparr>]"]
  by (simp add: eliminate_duplicate_dependencies_def object_address_comparator_def)

text \<open>
  The claim as written asks for sub-ids greater than 0. \<^verbatim>\<open>objectSubId\<close> is a signed
  \<^verbatim>\<open>int32\<close>, and the references of an expression include system columns, whose
  attribute numbers are negative: column -1 (the word 4294967295) and column 1 of one
  relation are both kept.
\<close>

theorem eliminate_duplicate_dependencies_negative_subid:
  "eliminate_duplicate_dependencies
       [\<lparr>classId = 1259, objectId = 5, objectSubId = 4294967295\<rparr>,
        \<lparr>classId = 1259, objectId = 5, objectSubId = 1\<rparr>] =
       [\<lparr>classId = 1259, objectId = 5, objectSubId = 1\<rparr>,
        \<lparr>classId = 1259, objectId = 5, objectSubId = 4294967295\<rparr>]
   \<and> sint (objectSubId \<lparr>classId = 1259, objectId = 5, objectSubId = 4294967295 :: int32\<rparr>) = -1
   \<and> \<not> 0 < sint (objectSubId \<lparr>classId = 1259, objectId = 5, objectSubId = 4294967295 :: int32\<rparr>)"
  by (simp add: eliminate_duplicate_dependencies_def object_address_comparator_def)

section \<open>Properties of the class dispatch\<close>

lemma set_all_classes: "set all_classes = UNIV"
proof -
  have "c \<in> set all_classes" for c
    by (cases c) (simp_all add: all_classes_def)
  then show ?thesis by blast
qed

lemma getObjectClass_find:
  "getObjectClass e a =
     (case find (\<lambda>c. classId a = object_classes e c) all_classes of
        None \<Rightarrow> Inl (unrecognized_object_class (classId a))
      | Some c \<Rightarrow> if c = OCLASS_CLASS then Inr c else Assert_whole_object e a c)"
  unfolding getObjectClass_def all_classes_def
  by (simp del: Assert_whole_object_def)


lemma getObjectClass_unrecognized:
  "getObjectClass e a = Inl (unrecognized_object_class (classId a)) \<longleftrightarrow>
     (\<forall>c. classId a \<noteq> object_classes e c)"
proof
  assume "\<forall>c. classId a \<noteq> object_classes e c"
  then have "find (\<lambda>c. classId a = object_classes e c) all_classes = None"
    by (simp add: find_None_iff)
  then show "getObjectClass e a = Inl (unrecognized_object_class (classId a))"
    by (simp add: getObjectClass_find)
next
  assume u: "getObjectClass e a = Inl (unrecognized_object_class (classId a))"
  show "\<forall>c. classId a \<noteq> object_classes e c"
  proof (cases "find (\<lambda>c. classId a = object_classes e c) all_classes")
    case None
    then show ?thesis by (simp add: find_None_iff set_all_classes)
  next
    case (Some c)
    with u show ?thesis
      by (simp add: getObjectClass_find Assert_whole_object_def split: if_splits)
  qed
qed

lemma getObjectClass_Inr:
  assumes "getObjectClass e a = Inr c"
  shows "classId a = object_classes e c"
    and "assert_checking e \<Longrightarrow> c = OCLASS_CLASS \<or> objectSubId a = 0"
proof -
  from assms obtain c' where f: "find (\<lambda>c. classId a = object_classes e c) all_classes = Some c'"
    by (cases "find (\<lambda>c. classId a = object_classes e c) all_classes")
       (simp_all add: getObjectClass_find)
  with assms have c: "c' = c" and s: "assert_checking e \<Longrightarrow> c = OCLASS_CLASS \<or> objectSubId a = 0"
    by (auto simp: getObjectClass_find Assert_whole_object_def split: if_splits)
  from f have "classId a = object_classes e c'" by (auto simp: find_Some_iff)
  with c show "classId a = object_classes e c" by simp
  show "assert_checking e \<Longrightarrow> c = OCLASS_CLASS \<or> objectSubId a = 0" by (rule s)
qed

lemma getObjectClass_trap:
  assumes reg: "classId a = object_classes e c"
    and nrel: "classId a \<noteq> object_classes e OCLASS_CLASS"
    and chk: "assert_checking e" and sub: "objectSubId a \<noteq> 0"
  shows "getObjectClass e a = Inl TRAP_FailedAssertion"
proof (cases "find (\<lambda>c. classId a = object_classes e c) all_classes")
  case None
  then have "\<forall>x. classId a \<noteq> object_classes e x"
    by (simp add: find_None_iff set_all_classes)
  with reg show ?thesis by blast
next
  case (Some c')
  then have "classId a = object_classes e c'" by (auto simp: find_Some_iff)
  with nrel have "c' \<noteq> OCLASS_CLASS" by auto
  with Some chk sub show ?thesis
    by (simp add: getObjectClass_find Assert_whole_object_def)
qed

lemma getObjectClass_no_assert:
  assumes reg: "classId a = object_classes e c" and chk: "\<not> assert_checking e"
  shows "\<exists>c'. getObjectClass e a = Inr c'"
proof (cases "find (\<lambda>c. classId a = object_classes e c) all_classes")
  case None
  then have "\<forall>x. classId a \<noteq> object_classes e x"
    by (simp add: find_None_iff set_all_classes)
  with reg show ?thesis by blast
next
  case (Some c')
  with chk show ?thesis
    by (simp add: getObjectClass_find Assert_whole_object_def)
qed

lemma doDeletion_Inr:
  "doDeletion e a = Inr d \<Longrightarrow> \<exists>c. getObjectClass e a = Inr c"
  unfolding doDeletion_def by (cases "getObjectClass e a") simp_all

lemma getObjectDescription_Inr:
  "getObjectDescription e a = Inr d \<Longrightarrow> \<exists>c. getObjectClass e a = Inr c"
  unfolding getObjectDescription_def by (cases "getObjectClass e a") simp_all

lemma doDeletion_compression:
  "getObjectClass e a = Inr OCLASS_COMPRESSION \<Longrightarrow>
     doDeletion e a = Inr (notice dependency_not_yet_implemented)"
  by (simp add: doDeletion_def)


text \<open>
  C10: \<^verbatim>\<open>getObjectClass\<close> raises "unrecognized object class" exactly for the class
  ids outside the table of the 23 object classes and otherwise returns the class of
  the table; with assertions compiled in it traps on a sub-object address of any
  class but \<^verbatim>\<open>OCLASS_CLASS\<close>, so \<^verbatim>\<open>doDeletion\<close> and \<^verbatim>\<open>getObjectDescription\<close>,
  which call it first, return only for addresses of a registered class that are whole
  objects or belong to \<^verbatim>\<open>OCLASS_CLASS\<close>.
\<close>

theorem getObjectClass_precondition:
  "(getObjectClass e a = Inl (unrecognized_object_class (classId a)) \<longleftrightarrow>
      (\<forall>c. classId a \<noteq> object_classes e c))
   \<and> (getObjectClass e a = Inr c \<longrightarrow> classId a = object_classes e c)
   \<and> (assert_checking e \<and> classId a = object_classes e c \<and>
        classId a \<noteq> object_classes e OCLASS_CLASS \<and> objectSubId a \<noteq> 0 \<longrightarrow>
        getObjectClass e a = Inl TRAP_FailedAssertion)
   \<and> (assert_checking e \<and> (doDeletion e a = Inr d \<or> getObjectDescription e a = Inr s) \<longrightarrow>
        (\<exists>c'. classId a = object_classes e c' \<and> (c' = OCLASS_CLASS \<or> objectSubId a = 0)))
   \<and> card (UNIV :: ObjectClass set) = 23"
proof (intro conjI impI)
  show "getObjectClass e a = Inl (unrecognized_object_class (classId a)) \<longleftrightarrow>
      (\<forall>c. classId a \<noteq> object_classes e c)"
    by (rule getObjectClass_unrecognized)
next
  assume "getObjectClass e a = Inr c"
  then show "classId a = object_classes e c" by (rule getObjectClass_Inr)
next
  assume "assert_checking e \<and> classId a = object_classes e c \<and>
        classId a \<noteq> object_classes e OCLASS_CLASS \<and> objectSubId a \<noteq> 0"
  then show "getObjectClass e a = Inl TRAP_FailedAssertion"
    using getObjectClass_trap by blast
next
  assume h: "assert_checking e \<and> (doDeletion e a = Inr d \<or> getObjectDescription e a = Inr s)"
  then obtain c' where c': "getObjectClass e a = Inr c'"
    using doDeletion_Inr getObjectDescription_Inr by blast
  from getObjectClass_Inr[OF c'] h
  show "\<exists>c'. classId a = object_classes e c' \<and> (c' = OCLASS_CLASS \<or> objectSubId a = 0)"
    by blast
next
  have "distinct all_classes" by (simp add: all_classes_def)
  then have "card (set all_classes) = length all_classes" by (rule distinct_card)
  then show "card (UNIV :: ObjectClass set) = 23"
    by (simp add: set_all_classes) (simp add: all_classes_def)
qed

theorem getObjectClass_precondition_witness:
  "assert_checking example_env
   \<and> classId \<lparr>classId = 1255, objectId = 5, objectSubId = 3\<rparr> = object_classes example_env OCLASS_PROC
   \<and> classId \<lparr>classId = 1255, objectId = 5, objectSubId = 3\<rparr> \<noteq> object_classes example_env OCLASS_CLASS
   \<and> objectSubId \<lparr>classId = 1255, objectId = 5, objectSubId = 3\<rparr> \<noteq> (0 :: int32)
   \<and> getObjectClass example_env \<lparr>classId = 1255, objectId = 5, objectSubId = 3\<rparr> =
        Inl TRAP_FailedAssertion"
  using getObjectClass_precondition
    [of example_env "\<lparr>classId = 1255, objectId = 5, objectSubId = 3\<rparr>" OCLASS_PROC]
  by (simp add: example_env_def example_classes_def)

lemma getObjectDescription_compression:
  "getObjectClass e a = Inr OCLASS_COMPRESSION \<Longrightarrow>
     getObjectDescription e a = Inr ([], [(NOTICE, NOT_YET_IMPLEMENTED)])"
  by (simp add: getObjectDescription_def)

lemma step3_notice:
  "messages (recursiveDeletion_step3 object (notice m) st) = messages st @ [(NOTICE, m)]"
  "deleted (recursiveDeletion_step3 object (notice m) st) = deleted st @ [object]"
  "calls (recursiveDeletion_step3 object (notice m) st) = calls st @
     DeleteComments (objectId object) (classId object) (objectSubId object) #
     (if objectSubId object = 0
      then [deleteSharedDependencyRecordsFor (classId object) (objectId object)]
      else [])"
  "depRel (recursiveDeletion_step3 object (notice m) st) = depRel st"
  by (simp_all add: recursiveDeletion_step3_def ereport_def Let_def split: option.splits)

lemma recursiveDeletion_compression:
  assumes c: "getObjectClass e object = Inr OCLASS_COMPRESSION"
    and s: "scan_depender object (depRel st) = []" "scan_reference object (depRel st) = []"
  shows "recursiveDeletion (Suc fuel) e object behavior msglevel callingObject oktodelete st =
           Some (Inr (True, recursiveDeletion_step3 object (notice dependency_not_yet_implemented)
                              (st\<lparr>messages := messages st @ [(NOTICE, NOT_YET_IMPLEMENTED)]\<rparr>)))"
  using getObjectDescription_compression[OF c] doDeletion_compression[OF c] s by simp

lemma findAutoDeletableObjects_alone:
  "scan_reference object rel = [] \<Longrightarrow>
     findAutoDeletableObjects (Suc fuel) e object new_object_addresses rel True =
       Some (Inr (add_exact_object_address object new_object_addresses))"
  by (simp add: new_object_addresses_def object_address_present_def)

text \<open>
  C9: for an object of class \<^verbatim>\<open>OCLASS_COMPRESSION\<close>, \<^verbatim>\<open>doDeletion\<close> raises no error
  and calls no destructor: it reports the notice "dependency: not yet implemented!" and
  returns. Dropping such an object succeeds: \<^verbatim>\<open>recursiveDeletion\<close> of such an
  object with no dependency tuples returns true, having reported "NOT YET IMPLEMENTED"
  (from \<^verbatim>\<open>getObjectDescription\<close>, whose description of the object is empty) and then
  the notice of \<^verbatim>\<open>doDeletion\<close>, the only catalog calls being those for comments and
  shared dependencies; \<^verbatim>\<open>performDeletion\<close>, which describes the object once more
  before, returns normally with these three notices.
\<close>

theorem doDeletion_compression_succeeds:
  "getObjectClass e object = Inr OCLASS_COMPRESSION \<longrightarrow>
     doDeletion e object = Inr (notice dependency_not_yet_implemented)
     \<and> getObjectDescription e object = Inr ([], [(NOTICE, NOT_YET_IMPLEMENTED)])
     \<and> (scan_depender object (depRel st) = [] \<and> scan_reference object (depRel st) = [] \<longrightarrow>
        (\<exists>st'. recursiveDeletion (Suc fuel) e object behavior msglevel callingObject oktodelete st =
                 Some (Inr (True, st'))
          \<and> messages st' = messages st @
               [(NOTICE, NOT_YET_IMPLEMENTED), (NOTICE, dependency_not_yet_implemented)]
          \<and> deleted st' = deleted st @ [object]
          \<and> calls st' = calls st @
               DeleteComments (objectId object) (classId object) (objectSubId object) #
               (if objectSubId object = 0
                then [deleteSharedDependencyRecordsFor (classId object) (objectId object)]
                else [])
          \<and> depRel st' = depRel st)
        \<and> (\<exists>st'. performDeletion (Suc fuel) e object behavior st = Some (Inr st')
          \<and> messages st' = messages st @
               [(NOTICE, NOT_YET_IMPLEMENTED), (NOTICE, NOT_YET_IMPLEMENTED),
                (NOTICE, dependency_not_yet_implemented)]
          \<and> deleted st' = deleted st @ [object]
          \<and> calls st' = calls st @
               DeleteComments (objectId object) (classId object) (objectSubId object) #
               (if objectSubId object = 0
                then [deleteSharedDependencyRecordsFor (classId object) (objectId object)]
                else [])
          \<and> depRel st' = depRel st))"
proof (intro impI conjI)
  assume c: "getObjectClass e object = Inr OCLASS_COMPRESSION"
  show "doDeletion e object = Inr (notice dependency_not_yet_implemented)"
    using c by (rule doDeletion_compression)
  show d: "getObjectDescription e object = Inr ([], [(NOTICE, NOT_YET_IMPLEMENTED)])"
    using c by (rule getObjectDescription_compression)
  assume s: "scan_depender object (depRel st) = [] \<and> scan_reference object (depRel st) = []"
  let ?n = "[(NOTICE, NOT_YET_IMPLEMENTED)]"
  let ?st' = "recursiveDeletion_step3 object (notice dependency_not_yet_implemented)
                (st\<lparr>messages := messages st @ ?n\<rparr>)"
  have "recursiveDeletion (Suc fuel) e object behavior msglevel callingObject oktodelete st =
          Some (Inr (True, ?st'))"
    using s by (intro recursiveDeletion_compression[OF c]) simp_all
  then show "\<exists>st'. recursiveDeletion (Suc fuel) e object behavior msglevel callingObject oktodelete st =
                 Some (Inr (True, st'))
          \<and> messages st' = messages st @
               [(NOTICE, NOT_YET_IMPLEMENTED), (NOTICE, dependency_not_yet_implemented)]
          \<and> deleted st' = deleted st @ [object]
          \<and> calls st' = calls st @
               DeleteComments (objectId object) (classId object) (objectSubId object) #
               (if objectSubId object = 0
                then [deleteSharedDependencyRecordsFor (classId object) (objectId object)]
                else [])
          \<and> depRel st' = depRel st"
    by (intro exI[of _ ?st']) (simp add: step3_notice del: recursiveDeletion.simps)
  let ?st0 = "st\<lparr>messages := messages st @ ?n, alreadyDeleted := None\<rparr>"
  let ?st'' = "recursiveDeletion_step3 object (notice dependency_not_yet_implemented)
                (?st0\<lparr>messages := messages ?st0 @ ?n\<rparr>)"
  have r: "recursiveDeletion (Suc fuel) e object behavior NOTICE None
             (add_exact_object_address object new_object_addresses) ?st0 = Some (Inr (True, ?st''))"
    using s by (intro recursiveDeletion_compression[OF c]) simp_all
  have f: "findAutoDeletableObjects (Suc fuel) e object new_object_addresses (depRel st) True =
             Some (Inr (add_exact_object_address object new_object_addresses))"
    using s by (intro findAutoDeletableObjects_alone) simp
  have "performDeletion (Suc fuel) e object behavior st = Some (Inr ?st'')"
    unfolding performDeletion_def using d f r
    by (simp del: recursiveDeletion.simps findAutoDeletableObjects.simps)
  then show "\<exists>st'. performDeletion (Suc fuel) e object behavior st = Some (Inr st')
          \<and> messages st' = messages st @
               [(NOTICE, NOT_YET_IMPLEMENTED), (NOTICE, NOT_YET_IMPLEMENTED),
                (NOTICE, dependency_not_yet_implemented)]
          \<and> deleted st' = deleted st @ [object]
          \<and> calls st' = calls st @
               DeleteComments (objectId object) (classId object) (objectSubId object) #
               (if objectSubId object = 0
                then [deleteSharedDependencyRecordsFor (classId object) (objectId object)]
                else [])
          \<and> depRel st' = depRel st"
    by (intro exI[of _ ?st'']) (simp add: step3_notice)
qed

theorem doDeletion_compression_succeeds_witness:
  "getObjectClass example_env \<lparr>classId = 3056, objectId = 7, objectSubId = 0\<rparr> = Inr OCLASS_COMPRESSION
   \<and> doDeletion example_env \<lparr>classId = 3056, objectId = 7, objectSubId = 0\<rparr> =
       Inr (notice dependency_not_yet_implemented)
   \<and> (\<exists>st'. recursiveDeletion (Suc 0) example_env \<lparr>classId = 3056, objectId = 7, objectSubId = 0\<rparr>
               DROP_RESTRICT NOTICE None [] (catalog_of []) = Some (Inr (True, st'))
         \<and> messages st' = [(NOTICE, NOT_YET_IMPLEMENTED), (NOTICE, dependency_not_yet_implemented)]
         \<and> deleted st' = [\<lparr>classId = 3056, objectId = 7, objectSubId = 0\<rparr>]
         \<and> calls st' = [DeleteComments 7 3056 0, deleteSharedDependencyRecordsFor 3056 7])
   \<and> (\<exists>st'. performDeletion (Suc 0) example_env \<lparr>classId = 3056, objectId = 7, objectSubId = 0\<rparr>
               DROP_RESTRICT (catalog_of []) = Some (Inr st')
         \<and> messages st' = [(NOTICE, NOT_YET_IMPLEMENTED), (NOTICE, NOT_YET_IMPLEMENTED),
                           (NOTICE, dependency_not_yet_implemented)]
         \<and> deleted st' = [\<lparr>classId = 3056, objectId = 7, objectSubId = 0\<rparr>])"
proof -
  have c: "getObjectClass example_env \<lparr>classId = 3056, objectId = 7, objectSubId = 0\<rparr> =
             Inr OCLASS_COMPRESSION"
    by (simp add: getObjectClass_def Assert_whole_object_def example_env_def example_classes_def)
  have s: "scan_depender \<lparr>classId = 3056, objectId = 7, objectSubId = 0\<rparr> (depRel (catalog_of [])) = [] \<and>
           scan_reference \<lparr>classId = 3056, objectId = 7, objectSubId = 0\<rparr> (depRel (catalog_of [])) = []"
    by (simp add: scan_depender_def scan_reference_def catalog_of_def)
  from doDeletion_compression_succeeds
         [of example_env "\<lparr>classId = 3056, objectId = 7, objectSubId = 0\<rparr>" "catalog_of []"
             0 DROP_RESTRICT NOTICE None "[]"] c s
  show ?thesis
    by (auto simp: catalog_of_def simp del: recursiveDeletion.simps)
qed

section \<open>The steps of the deletion engine\<close>

lemmas deptype_defs =
  DEPENDENCY_NORMAL_def DEPENDENCY_AUTO_def DEPENDENCY_INTERNAL_def DEPENDENCY_PIN_def

lemma deptype_distinct [simp]:
  "DEPENDENCY_NORMAL \<noteq> DEPENDENCY_AUTO" "DEPENDENCY_NORMAL \<noteq> DEPENDENCY_INTERNAL"
  "DEPENDENCY_NORMAL \<noteq> DEPENDENCY_PIN" "DEPENDENCY_AUTO \<noteq> DEPENDENCY_NORMAL"
  "DEPENDENCY_AUTO \<noteq> DEPENDENCY_INTERNAL" "DEPENDENCY_AUTO \<noteq> DEPENDENCY_PIN"
  "DEPENDENCY_INTERNAL \<noteq> DEPENDENCY_NORMAL" "DEPENDENCY_INTERNAL \<noteq> DEPENDENCY_AUTO"
  "DEPENDENCY_INTERNAL \<noteq> DEPENDENCY_PIN" "DEPENDENCY_PIN \<noteq> DEPENDENCY_NORMAL"
  "DEPENDENCY_PIN \<noteq> DEPENDENCY_AUTO" "DEPENDENCY_PIN \<noteq> DEPENDENCY_INTERNAL"
  by (simp_all add: deptype_defs)



lemma getObjectDescription_reported:
  "getObjectDescription e a = Inr (d, ns) \<Longrightarrow>
     ns = (if getObjectClass e a = Inr OCLASS_COMPRESSION then [(NOTICE, NOT_YET_IMPLEMENTED)] else [])"
  unfolding getObjectDescription_def
  by (cases "getObjectClass e a") (auto split: ObjectClass.splits option.splits)

lemma getObjectDescription_quiet:
  "getObjectDescription e a = Inr (d, ns) \<Longrightarrow> quiet ns"
  by (drule getObjectDescription_reported) (auto simp: quiet_def)



lemma quiet_Nil [simp]: "quiet []"
  by (simp add: quiet_def)

lemma quiet_append [simp]: "quiet (ns @ ms) \<longleftrightarrow> quiet ns \<and> quiet ms"
  by (auto simp: quiet_def)

lemma report_simps [simp]:
  "depRel (report ns st) = depRel st"
  "calls (report ns st) = calls st"
  "messages (report ns st) = messages st @ ns"
  "deleted (report ns st) = deleted st"
  "alreadyDeleted (report ns st) = alreadyDeleted st"
  by (simp_all add: report_def)

lemma report_Nil [simp]: "report [] st = st"
  by (simp add: report_def)

lemma report_report [simp]: "report ms (report ns st) = report (ns @ ms) st"
  by (simp add: report_def)

lemma report_depRel [simp]: "report ns (st\<lparr>depRel := rel\<rparr>) = (report ns st)\<lparr>depRel := rel\<rparr>"
  by (simp add: report_def)

lemma ereport_report: "ereport lvl m st = report [(lvl, m)] st"
  by (simp add: ereport_def report_def)

lemma ereport_simps [simp]:
  "depRel (ereport lvl m st) = depRel st"
  "calls (ereport lvl m st) = calls st"
  "messages (ereport lvl m st) = messages st @ [(lvl, m)]"
  "deleted (ereport lvl m st) = deleted st"
  "alreadyDeleted (ereport lvl m st) = alreadyDeleted st"
  by (simp_all add: ereport_def)

lemma ereport_description_cases:
  obtains (raise) err where "errstart e lvl" "getObjectDescription e x = Inl err"
      "ereport_description e lvl m x st = Inl err"
    | (return) ns where "quiet ns" "ereport_description e lvl m x st = Inr (report (ns @ [(lvl, m)]) st)"
      "errstart e lvl \<longrightarrow> (\<exists>d. getObjectDescription e x = Inr (d, ns))" "\<not> errstart e lvl \<longrightarrow> ns = []"
proof (cases "errstart e lvl")
  case False
  then have "ereport_description e lvl m x st = Inr (report ([] @ [(lvl, m)]) st)"
    by (simp add: ereport_description_def ereport_report)
  with False show ?thesis by (intro return[of "[]"]) simp_all
next
  case True
  show ?thesis
  proof (cases "getObjectDescription e x")
    case (Inl err)
    with True show ?thesis by (intro raise[of err]) (simp_all add: ereport_description_def)
  next
    case (Inr p)
    obtain d ns where p: "p = (d, ns)" by (cases p)
    from Inr p True have "ereport_description e lvl m x st = Inr (report (ns @ [(lvl, m)]) st)"
      by (simp add: ereport_description_def ereport_def report_def)
    with True Inr p getObjectDescription_quiet[of e x d ns] show ?thesis
      by (intro return[of ns]) simp_all
  qed
qed

lemma with_ok_simps [simp]:
  "with_ok ok (Inl err) = Inl err"
  "with_ok ok (Inr st) = Inr (ok, st)"
  by (simp_all add: with_ok_def)

lemma is_violation_site_report:
  "is_violation (snd (site_report e behavior msglevel oktodelete other object)) \<longleftrightarrow>
     \<not> object_address_present other oktodelete \<and> behavior = DROP_RESTRICT"
  by (simp add: site_report_def)

lemma is_violation_tuple_report:
  "is_violation (snd (tuple_report e behavior msglevel oktodelete tup object)) \<longleftrightarrow>
     deptype tup = DEPENDENCY_NORMAL \<and> \<not> object_address_present (dependent_object tup) oktodelete \<and>
     behavior = DROP_RESTRICT"
  by (simp add: tuple_report_def is_violation_site_report)

lemma message_choice:
  "(if object_address_present x oktodelete
    then with_ok ok0 (ereport_description e DEBUG2 (drop_auto_cascades_to x) x st)
    else if behavior = DROP_RESTRICT
    then with_ok False
           (if msglevel = NOTICE \<and> Gp_role e = GP_ROLE_EXECUTE
            then ereport_description e DEBUG1 (depends_on x y) x st
            else ereport_description e msglevel (depends_on x y) x st)
    else with_ok ok0
           (if Gp_role e = GP_ROLE_EXECUTE
            then ereport_description e DEBUG1 (drop_cascades_to x) x st
            else ereport_description e msglevel (drop_cascades_to x) x st)) =
   with_ok (ok0 \<and> \<not> is_violation (snd (site_report e behavior msglevel oktodelete x y)))
     (ereport_description e (fst (site_report e behavior msglevel oktodelete x y))
        (snd (site_report e behavior msglevel oktodelete x y)) x st)"
  by (simp add: site_report_def restrict_level_def cascade_level_def)

text \<open>
  One turn of the loop of \<^verbatim>\<open>deleteDependentObjects\<close> on a live tuple of a known type
  other than PIN: the report, the recursion into the dependent object, the rest of the
  scan.
\<close>

lemma scan_Cons:
  assumes "tup \<in> set (depRel st)"
    and "deptype tup = DEPENDENCY_NORMAL \<or> deptype tup = DEPENDENCY_AUTO \<or> deptype tup = DEPENDENCY_INTERNAL"
  shows "deleteDependentObjects_scan fuel e object d behavior msglevel oktodelete (tup # tups) ok st =
     (case ereport_description e (fst (tuple_report e behavior msglevel oktodelete tup object))
             (snd (tuple_report e behavior msglevel oktodelete tup object)) (dependent_object tup) st of
        Inl err \<Rightarrow> Some (Inl err)
      | Inr st1 \<Rightarrow>
          (case recursiveDeletion fuel e (dependent_object tup) behavior msglevel (Some object)
                  oktodelete st1 of
             None \<Rightarrow> None
           | Some (Inl err) \<Rightarrow> Some (Inl err)
           | Some (Inr (ok', st2)) \<Rightarrow>
               deleteDependentObjects_scan fuel e object d behavior msglevel oktodelete tups
                 (ok' \<and> ok \<and> \<not> is_violation (snd (tuple_report e behavior msglevel oktodelete tup object)))
                 st2))"
proof (cases "deptype tup = DEPENDENCY_NORMAL")
  case True
  let ?sr = "site_report e behavior msglevel oktodelete (dependent_object tup) object"
  have tr: "tuple_report e behavior msglevel oktodelete tup object = ?sr"
    using True by (simp add: tuple_report_def)
  have "deleteDependentObjects_scan fuel e object d behavior msglevel oktodelete (tup # tups) ok st =
     (case with_ok (ok \<and> \<not> is_violation (snd ?sr))
             (ereport_description e (fst ?sr) (snd ?sr) (dependent_object tup) st) of
        Inl err \<Rightarrow> Some (Inl err)
      | Inr (ok1, st1) \<Rightarrow>
          (case recursiveDeletion fuel e (dependent_object tup) behavior msglevel (Some object)
                  oktodelete st1 of
             None \<Rightarrow> None
           | Some (Inl err) \<Rightarrow> Some (Inl err)
           | Some (Inr (ok', st2)) \<Rightarrow>
               deleteDependentObjects_scan fuel e object d behavior msglevel oktodelete tups
                 (if \<not> ok' then False else ok1) st2))"
    using assms(1) True unfolding deleteDependentObjects_scan.simps
    by (simp add: Let_def message_choice split del: if_split)
  also have "\<dots> = (case ereport_description e (fst ?sr) (snd ?sr) (dependent_object tup) st of
        Inl err \<Rightarrow> Some (Inl err)
      | Inr st1 \<Rightarrow>
          (case recursiveDeletion fuel e (dependent_object tup) behavior msglevel (Some object)
                  oktodelete st1 of
             None \<Rightarrow> None
           | Some (Inl err) \<Rightarrow> Some (Inl err)
           | Some (Inr (ok', st2)) \<Rightarrow>
               deleteDependentObjects_scan fuel e object d behavior msglevel oktodelete tups
                 (ok' \<and> ok \<and> \<not> is_violation (snd ?sr)) st2))"
    by (cases "ereport_description e (fst ?sr) (snd ?sr) (dependent_object tup) st")
       (auto split: option.splits sum.splits)
  finally show ?thesis unfolding tr .
next
  case False
  with assms(2) have ai: "deptype tup = DEPENDENCY_AUTO \<or> deptype tup = DEPENDENCY_INTERNAL" by simp
  have tr: "tuple_report e behavior msglevel oktodelete tup object =
              (DEBUG2, drop_auto_cascades_to (dependent_object tup))"
    using False by (simp add: tuple_report_def)
  show ?thesis
    using assms(1) False ai unfolding tr deleteDependentObjects_scan.simps
    by (cases "ereport_description e DEBUG2 (drop_auto_cascades_to (dependent_object tup))
                 (dependent_object tup) st")
       (auto simp: Let_def split: option.splits sum.splits)
qed

lemma scan_Cons_dead:
  "tup \<notin> set (depRel st) \<Longrightarrow>
     deleteDependentObjects_scan fuel e object d behavior msglevel oktodelete (tup # tups) ok st =
     deleteDependentObjects_scan fuel e object d behavior msglevel oktodelete tups ok st"
  by simp


lemma scan_Cons_unrecognized:
  "tup \<in> set (depRel st) \<Longrightarrow> \<not> recognized (deptype tup) \<Longrightarrow>
     deleteDependentObjects_scan fuel e object d behavior msglevel oktodelete (tup # tups) ok st =
     Some (Inl (unrecognized_dependency_type (deptype tup) d))"
  by (simp add: Let_def recognized_def)

text \<open>What a turn of the loop that returns has gone through.\<close>

lemma scan_Cons_returns:
  assumes "deleteDependentObjects_scan fuel e object d behavior msglevel oktodelete (tup # tups) ok0 st =
             Some (Inr (ok, st'))"
    and "tup \<in> set (depRel st)"
  obtains (turn) ns ok1 st2 where
    "deptype tup = DEPENDENCY_NORMAL \<or> deptype tup = DEPENDENCY_AUTO \<or> deptype tup = DEPENDENCY_INTERNAL"
    "quiet ns"
    "errstart e (fst (tuple_report e behavior msglevel oktodelete tup object)) \<longrightarrow>
       (\<exists>d'. getObjectDescription e (dependent_object tup) = Inr (d', ns))"
    "\<not> errstart e (fst (tuple_report e behavior msglevel oktodelete tup object)) \<longrightarrow> ns = []"
    "recursiveDeletion fuel e (dependent_object tup) behavior msglevel (Some object) oktodelete
       (report (ns @ [tuple_report e behavior msglevel oktodelete tup object]) st) = Some (Inr (ok1, st2))"
    "deleteDependentObjects_scan fuel e object d behavior msglevel oktodelete tups
       (ok1 \<and> ok0 \<and> \<not> is_violation (snd (tuple_report e behavior msglevel oktodelete tup object))) st2
       = Some (Inr (ok, st'))"
proof -
  let ?tr = "tuple_report e behavior msglevel oktodelete tup object"
  from assms have ty: "deptype tup = DEPENDENCY_NORMAL \<or> deptype tup = DEPENDENCY_AUTO \<or>
      deptype tup = DEPENDENCY_INTERNAL"
    by (auto simp: Let_def split: if_splits)
  note eq = scan_Cons[OF assms(2) ty, of fuel e object d behavior msglevel oktodelete tups ok0]
  show ?thesis
  proof (cases rule: ereport_description_cases[where e = e and lvl = "fst ?tr"
      and x = "dependent_object tup" and m = "snd ?tr" and st = st])
    case (raise err)
    with assms(1) show ?thesis unfolding eq by simp
  next
    case (return ns)
    with assms(1) obtain ok1 st2 where
      r: "recursiveDeletion fuel e (dependent_object tup) behavior msglevel (Some object) oktodelete
         (report (ns @ [?tr]) st) = Some (Inr (ok1, st2))"
      and s: "deleteDependentObjects_scan fuel e object d behavior msglevel oktodelete tups
         (ok1 \<and> ok0 \<and> \<not> is_violation (snd ?tr)) st2 = Some (Inr (ok, st'))"
      unfolding eq by (auto split: option.splits sum.splits)
    show ?thesis by (rule turn[OF ty return(1) return(3) return(4) r s])
  qed
qed

text \<open>The two ways on after Step 1 of \<^verbatim>\<open>recursiveDeletion\<close>.\<close>

lemma recursiveDeletion_not_owned:
  assumes "getObjectDescription e object = Inr (d, ns)"
    and "recursiveDeletion_step1 e d callingObject (scan_depender object (depRel st)) None (depRel st)
           = Inr (None, rel)"
  shows "recursiveDeletion (Suc fuel) e object behavior msglevel callingObject oktodelete st =
     (case deleteDependentObjects_scan fuel e object d behavior msglevel oktodelete
             (scan_reference object rel) True ((report ns st)\<lparr>depRel := rel\<rparr>) of
        None \<Rightarrow> None
      | Some (Inl err) \<Rightarrow> Some (Inl err)
      | Some (Inr (ok', st2)) \<Rightarrow>
          (case doDeletion e object of
             Inl err \<Rightarrow> Some (Inl err)
           | Inr dl \<Rightarrow> Some (Inr (ok', recursiveDeletion_step3 object dl st2))))"
  using assms by (simp add: report_def)

lemma recursiveDeletion_owned:
  assumes "getObjectDescription e object = Inr (d, ns)"
    and "recursiveDeletion_step1 e d callingObject (scan_depender object (depRel st)) None (depRel st)
           = Inr (Some ow, rel)"
  shows "recursiveDeletion (Suc fuel) e object behavior msglevel callingObject oktodelete st =
     (case ereport_description e (fst (site_report e behavior msglevel oktodelete ow object))
             (snd (site_report e behavior msglevel oktodelete ow object)) ow
             ((report ns st)\<lparr>depRel := rel\<rparr>) of
        Inl err \<Rightarrow> Some (Inl err)
      | Inr st2 \<Rightarrow>
          (case recursiveDeletion fuel e ow behavior msglevel (Some object) oktodelete st2 of
             None \<Rightarrow> None
           | Some (Inl err) \<Rightarrow> Some (Inl err)
           | Some (Inr (ok', st3)) \<Rightarrow>
               Some (Inr (ok' \<and> \<not> is_violation (snd (site_report e behavior msglevel oktodelete ow object)),
                          st3))))"
proof -
  let ?sr = "site_report e behavior msglevel oktodelete ow object"
  let ?st1 = "(report ns st)\<lparr>depRel := rel\<rparr>"
  have st1: "?st1 = st\<lparr>messages := messages st @ ns, depRel := rel\<rparr>"
    by (simp add: report_def)
  have "recursiveDeletion (Suc fuel) e object behavior msglevel callingObject oktodelete st =
     (case with_ok (True \<and> \<not> is_violation (snd ?sr)) (ereport_description e (fst ?sr) (snd ?sr) ow ?st1) of
        Inl err \<Rightarrow> Some (Inl err)
      | Inr (ok, st2) \<Rightarrow>
          (case recursiveDeletion fuel e ow behavior msglevel (Some object) oktodelete st2 of
             None \<Rightarrow> None
           | Some (Inl err) \<Rightarrow> Some (Inl err)
           | Some (Inr (ok', st3)) \<Rightarrow> Some (Inr (if \<not> ok' then False else ok, st3))))"
    using assms unfolding recursiveDeletion.simps st1
    by (simp add: Let_def message_choice split del: if_split)
  also have "\<dots> = (case ereport_description e (fst ?sr) (snd ?sr) ow ?st1 of
        Inl err \<Rightarrow> Some (Inl err)
      | Inr st2 \<Rightarrow>
          (case recursiveDeletion fuel e ow behavior msglevel (Some object) oktodelete st2 of
             None \<Rightarrow> None
           | Some (Inl err) \<Rightarrow> Some (Inl err)
           | Some (Inr (ok', st3)) \<Rightarrow> Some (Inr (ok' \<and> \<not> is_violation (snd ?sr), st3))))"
    by (cases "ereport_description e (fst ?sr) (snd ?sr) ow ?st1")
       (auto split: option.splits sum.splits)
  finally show ?thesis .
qed

lemma recursiveDeletion_returns:
  assumes "recursiveDeletion (Suc fuel) e object behavior msglevel callingObject oktodelete st =
             Some (Inr (ok, st'))"
  obtains (not_owned) d ns rel st2 dl where
      "getObjectDescription e object = Inr (d, ns)"
      "recursiveDeletion_step1 e d callingObject (scan_depender object (depRel st)) None (depRel st)
         = Inr (None, rel)"
      "deleteDependentObjects_scan fuel e object d behavior msglevel oktodelete
         (scan_reference object rel) True ((report ns st)\<lparr>depRel := rel\<rparr>) = Some (Inr (ok, st2))"
      "doDeletion e object = Inr dl"
      "st' = recursiveDeletion_step3 object dl st2"
    | (owned) d ns rel ow ns' ok1 where
      "getObjectDescription e object = Inr (d, ns)"
      "recursiveDeletion_step1 e d callingObject (scan_depender object (depRel st)) None (depRel st)
         = Inr (Some ow, rel)"
      "quiet ns'"
      "recursiveDeletion fuel e ow behavior msglevel (Some object) oktodelete
         (report (ns' @ [site_report e behavior msglevel oktodelete ow object])
            ((report ns st)\<lparr>depRel := rel\<rparr>)) = Some (Inr (ok1, st'))"
      "ok \<longleftrightarrow> ok1 \<and> \<not> is_violation (snd (site_report e behavior msglevel oktodelete ow object))"
proof -
  from assms obtain d ns where d: "getObjectDescription e object = Inr (d, ns)"
    by (auto split: sum.splits)
  from assms d obtain owning rel where
    s1: "recursiveDeletion_step1 e d callingObject (scan_depender object (depRel st)) None (depRel st)
           = Inr (owning, rel)"
    by (auto split: sum.splits)
  show ?thesis
  proof (cases owning)
    case None
    from assms obtain st2 dl where
      sc: "deleteDependentObjects_scan fuel e object d behavior msglevel oktodelete
         (scan_reference object rel) True ((report ns st)\<lparr>depRel := rel\<rparr>) = Some (Inr (ok, st2))"
      and dd: "doDeletion e object = Inr dl" and st': "st' = recursiveDeletion_step3 object dl st2"
      unfolding recursiveDeletion_not_owned[OF d s1[unfolded None]]
      by (auto split: option.splits sum.splits)
    show ?thesis by (rule not_owned[OF d s1[unfolded None] sc dd st'])
  next
    case (Some ow)
    let ?sr = "site_report e behavior msglevel oktodelete ow object"
    note eq = recursiveDeletion_owned[OF d s1[unfolded Some], of fuel behavior msglevel oktodelete]
    show ?thesis
    proof (cases rule: ereport_description_cases[where e = e and lvl = "fst ?sr"
        and x = ow and m = "snd ?sr" and st = "(report ns st)\<lparr>depRel := rel\<rparr>"])
      case (raise err)
      with assms show ?thesis unfolding eq by simp
    next
      case (return ns')
      with assms obtain ok1 where
        r: "recursiveDeletion fuel e ow behavior msglevel (Some object) oktodelete
           (report (ns' @ [?sr]) ((report ns st)\<lparr>depRel := rel\<rparr>)) = Some (Inr (ok1, st'))"
        and o: "ok \<longleftrightarrow> ok1 \<and> \<not> is_violation (snd ?sr)"
        unfolding eq by (auto split: option.splits sum.splits)
      show ?thesis by (rule owned[OF d s1[unfolded Some] return(1) r o])
    qed
  qed
qed
subsection \<open>Step 1\<close>

lemma step1_Cons_Some:
  "recursiveDeletion_step1 e d (Some caller) (tup # tups) owning rel =
     (if deptype tup = DEPENDENCY_NORMAL \<or> deptype tup = DEPENDENCY_AUTO \<or>
         (deptype tup = DEPENDENCY_INTERNAL \<and> caller_matches caller (referenced_object tup))
      then recursiveDeletion_step1 e d (Some caller) tups owning (caql_delete_current tup rel)
      else if deptype tup = DEPENDENCY_INTERNAL
      then (if owning \<noteq> None then Inl (multiple_INTERNAL_dependencies d)
            else recursiveDeletion_step1 e d (Some caller) tups (Some (referenced_object tup)) rel)
      else if deptype tup = DEPENDENCY_PIN then Inl (incorrect_use_of_PIN d)
      else Inl (unrecognized_dependency_type (deptype tup) d))"
  by (auto simp: Let_def caller_matches_def deptype_defs)


lemma thinned_refl [simp]: "thinned rel rel"
  unfolding thinned_def by (rule exI[of _ "\<lambda>t. True"]) simp

lemma thinned_trans: "thinned a b \<Longrightarrow> thinned b c \<Longrightarrow> thinned a c"
  unfolding thinned_def by (metis filter_filter)

lemma thinned_delete: "thinned rel (caql_delete_current tup rel)"
  unfolding thinned_def caql_delete_current_def by blast

lemma thinned_length: "thinned rel rel' \<Longrightarrow> length rel' \<le> length rel"
  unfolding thinned_def by auto

lemma thinned_set: "thinned rel rel' \<Longrightarrow> set rel' \<subseteq> set rel"
  unfolding thinned_def by auto

lemma thinned_less:
  "thinned rel rel' \<Longrightarrow> tup \<in> set rel \<Longrightarrow> tup \<notin> set rel' \<Longrightarrow> length rel' < length rel"
  unfolding thinned_def by (auto intro: length_filter_less)

lemma step1_thinned:
  "recursiveDeletion_step1 e d callingObject tups owning rel = Inr (owning', rel') \<Longrightarrow>
     thinned rel rel'"
proof (induction tups arbitrary: owning rel)
  case Nil
  then show ?case by simp
next
  case (Cons tup tups)
  from Cons.prems Cons.IH thinned_delete[of rel tup] show ?case
    by (auto simp: Let_def split: if_splits option.splits sum.splits prod.splits
          intro: thinned_trans)
qed

lemma keeps_pins_refl [simp]: "keeps_pins rel rel"
  by (simp add: keeps_pins_def)

lemma keeps_pins_trans: "keeps_pins a b \<Longrightarrow> keeps_pins b c \<Longrightarrow> keeps_pins a c"
  by (auto simp: keeps_pins_def)



lemma keeps_pins_delete:
  "deptype tup \<noteq> DEPENDENCY_PIN \<Longrightarrow> keeps_pins rel (caql_delete_current tup rel)"
  by (auto simp: keeps_pins_def caql_delete_current_def)

lemma step1_keeps_pins:
  "recursiveDeletion_step1 e d callingObject tups owning rel = Inr (owning', rel') \<Longrightarrow>
     keeps_pins rel rel'"
proof (induction tups arbitrary: owning rel)
  case Nil
  then show ?case by simp
next
  case (Cons tup tups)
  show ?case
  proof (cases "deptype tup = DEPENDENCY_PIN")
    case True
    with Cons.prems show ?thesis by (simp add: Let_def)
  next
    case False
    note del = keeps_pins_delete[OF False, of rel]
    from Cons.prems Cons.IH del show ?thesis
      by (auto simp: Let_def split: if_splits option.splits sum.splits prod.splits
            intro: keeps_pins_trans)
  qed
qed

lemma step1_deletes:
  "recursiveDeletion_step1 e d callingObject tups owning rel = Inr (owning', rel') \<Longrightarrow>
     \<forall>t \<in> set tups. deptype t \<noteq> DEPENDENCY_INTERNAL \<longrightarrow> t \<notin> set rel'"
proof (induction tups arbitrary: owning rel)
  case Nil
  then show ?case by simp
next
  case (Cons tup tups)
  show ?case
  proof (cases "deptype tup = DEPENDENCY_NORMAL \<or> deptype tup = DEPENDENCY_AUTO")
    case True
    with Cons.prems have r: "recursiveDeletion_step1 e d callingObject tups owning
        (caql_delete_current tup rel) = Inr (owning', rel')"
      by (simp add: Let_def)
    from thinned_set[OF step1_thinned[OF r]] have "tup \<notin> set rel'"
      by (auto simp: caql_delete_current_def)
    with Cons.IH[OF r] show ?thesis by simp
  next
    case False
    with Cons.prems have i: "deptype tup = DEPENDENCY_INTERNAL"
      by (auto simp: Let_def split: if_splits)
    from Cons.prems False i obtain ow rl where
      "recursiveDeletion_step1 e d callingObject tups ow rl = Inr (owning', rel')"
      by (auto simp: Let_def split: if_splits option.splits sum.splits prod.splits)
    from Cons.IH[OF this] i show ?thesis by simp
  qed
qed

lemma step1_no_internal:
  "recursiveDeletion_step1 e d callingObject tups owning rel = Inr (owning', rel') \<Longrightarrow>
   \<forall>t \<in> set tups. deptype t \<noteq> DEPENDENCY_INTERNAL \<Longrightarrow> owning' = owning"
proof (induction tups arbitrary: rel)
  case Nil
  then show ?case by simp
next
  case (Cons tup tups)
  from Cons.prems Cons.IH show ?case
    by (auto simp: Let_def split: if_splits)
qed

lemma step1_owned_already:
  "recursiveDeletion_step1 e d (Some caller) tups (Some ow) rel = Inr (owning', rel') \<Longrightarrow>
     owning' = Some ow \<and> (\<forall>t \<in> set tups. \<not> kept_internal caller t)"
proof (induction tups arbitrary: rel)
  case Nil
  then show ?case by simp
next
  case (Cons tup tups)
  from Cons.prems show ?case
    unfolding step1_Cons_Some
    by (auto simp: kept_internal_def dest: Cons.IH split: if_splits)
qed

lemma step1_characterisation:
  "recursiveDeletion_step1 e d (Some caller) tups owning rel = Inr (owning', rel') \<Longrightarrow>
     rel' = filter (\<lambda>t. t \<notin> set tups \<or> kept_internal caller t) rel
     \<and> (\<forall>t \<in> set tups. deptype t = DEPENDENCY_NORMAL \<or> deptype t = DEPENDENCY_AUTO \<or>
                         deptype t = DEPENDENCY_INTERNAL)
     \<and> (\<forall>t \<in> set tups. kept_internal caller t \<longrightarrow> owning' = Some (referenced_object t))
     \<and> ((\<forall>t \<in> set tups. \<not> kept_internal caller t) \<longrightarrow> owning' = owning)"
proof (induction tups arbitrary: rel owning)
  case Nil
  then show ?case by simp
next
  case (Cons tup tups)
  show ?case
  proof (cases "deptype tup = DEPENDENCY_NORMAL \<or> deptype tup = DEPENDENCY_AUTO \<or>
         (deptype tup = DEPENDENCY_INTERNAL \<and> caller_matches caller (referenced_object tup))")
    case True
    then have nk: "\<not> kept_internal caller tup"
      by (auto simp: kept_internal_def deptype_defs)
    from True Cons.prems
    have "recursiveDeletion_step1 e d (Some caller) tups owning (caql_delete_current tup rel)
            = Inr (owning', rel')"
      unfolding step1_Cons_Some by simp
    from Cons.IH[OF this] True nk show ?thesis
      by (auto simp: caql_delete_current_def intro: filter_cong)
  next
    case False
    with Cons.prems have int: "deptype tup = DEPENDENCY_INTERNAL" and none: "owning = None"
      and rec: "recursiveDeletion_step1 e d (Some caller) tups (Some (referenced_object tup)) rel
                  = Inr (owning', rel')"
      unfolding step1_Cons_Some by (auto split: if_splits)
    from int False have k: "kept_internal caller tup" by (simp add: kept_internal_def)
    from step1_owned_already[OF rec]
    have ow: "owning' = Some (referenced_object tup)" and nk: "\<forall>t \<in> set tups. \<not> kept_internal caller t"
      by auto
    from Cons.IH[OF rec] int k ow nk show ?thesis
      by (auto intro: filter_cong)
  qed
qed


lemma step1_outermost_internal:
  "\<forall>t \<in> set pre. deptype t = DEPENDENCY_NORMAL \<or> deptype t = DEPENDENCY_AUTO \<Longrightarrow>
   deptype tup = DEPENDENCY_INTERNAL \<Longrightarrow>
     recursiveDeletion_step1 e d None (pre @ tup # post) owning rel =
       (case getObjectDescription e (referenced_object tup) of
          Inl err \<Rightarrow> Inl err
        | Inr (otherObjDesc, reported) \<Rightarrow> Inl (cannot_drop_requires_it d otherObjDesc))"
proof (induction pre arbitrary: rel)
  case Nil
  then show ?case by (simp add: Let_def)
next
  case (Cons p pre)
  then show ?case by (auto simp: Let_def)
qed

subsection \<open>What a run leaves behind\<close>

lemma depRel_step3 [simp]: "depRel (recursiveDeletion_step3 object d st) = depRel st"
  by (cases d) (auto simp: recursiveDeletion_step3_def ereport_def Let_def split: option.splits)

lemma deleted_step3 [simp]:
  "deleted (recursiveDeletion_step3 object d st) = deleted st @ [object]"
  by (cases d) (auto simp: recursiveDeletion_step3_def ereport_def Let_def split: option.splits)

lemma prefix_messages_step3: "prefix (messages st) (messages (recursiveDeletion_step3 object d st))"
  by (cases d) (auto simp: recursiveDeletion_step3_def ereport_def Let_def split: option.splits)

lemma prefix_calls_step3: "prefix (calls st) (calls (recursiveDeletion_step3 object d st))"
  by (cases d) (auto simp: recursiveDeletion_step3_def ereport_def Let_def split: option.splits)

lemma grown_refl [simp]: "grown st st"
  by (simp add: grown_def)

lemma grown_trans: "grown a b \<Longrightarrow> grown b c \<Longrightarrow> grown a c"
  unfolding grown_def
  by (meson thinned_trans keeps_pins_trans prefix_order.trans)

lemma grown_report: "grown st (report ns st)"
  by (simp add: grown_def)

lemma grown_step1:
  "recursiveDeletion_step1 e d callingObject tups owning (depRel st) = Inr (owning', rel') \<Longrightarrow>
     grown st ((report ns st)\<lparr>depRel := rel'\<rparr>)"
  by (simp add: grown_def step1_thinned step1_keeps_pins)

lemma grown_step3: "grown st (recursiveDeletion_step3 object d st)"
  by (simp add: grown_def prefix_messages_step3 prefix_calls_step3)

lemma scan_grown:
  assumes rd: "\<And>object callingObject st ok st'.
      recursiveDeletion fuel e object behavior msglevel callingObject oktodelete st = Some (Inr (ok, st')) \<Longrightarrow>
        grown st st'"
  shows "deleteDependentObjects_scan fuel e object d behavior msglevel oktodelete tups ok0 st =
           Some (Inr (ok, st')) \<Longrightarrow> grown st st'"
proof (induction tups arbitrary: ok0 st)
  case Nil
  then show ?case by simp
next
  case (Cons tup tups)
  show ?case
  proof (cases "tup \<in> set (depRel st)")
    case False
    with Cons.prems Cons.IH show ?thesis by simp
  next
    case True
    from Cons.prems True show ?thesis
    proof (cases rule: scan_Cons_returns)
      case (turn ns ok1 st2)
      from rd[OF turn(5)] Cons.IH[OF turn(6)] grown_report show ?thesis
        by (blast intro: grown_trans)
    qed
  qed
qed

lemma recursiveDeletion_grown:
  "recursiveDeletion fuel e object behavior msglevel callingObject oktodelete st = Some (Inr (ok, st')) \<Longrightarrow>
     grown st st'"
proof (induction fuel arbitrary: object callingObject st ok st')
  case 0
  then show ?case by simp
next
  case (Suc fuel)
  have scan: "grown st st'"
    if "deleteDependentObjects_scan fuel e ob d behavior msglevel oktodelete tups ok0 st =
           Some (Inr (ok, st'))" for ob d tups ok0 st ok st'
    by (rule scan_grown[rotated, OF that]) (erule Suc.IH)
  from Suc.prems show ?case
  proof (cases rule: recursiveDeletion_returns)
    case (not_owned d ns rel st2 dl)
    from grown_step1[OF not_owned(2)] scan[OF not_owned(3)] grown_step3[of st2 object dl]
    show ?thesis unfolding not_owned(5) by (blast intro: grown_trans)
  next
    case (owned d ns rel ow ns' ok1)
    from grown_step1[OF owned(2), of ns] Suc.IH[OF owned(4)] grown_report
    show ?thesis by (blast intro: grown_trans)
  qed
qed

lemma deleteDependentObjects_grown:
  "deleteDependentObjects fuel e object d behavior msglevel oktodelete st = Some (Inr (ok, st')) \<Longrightarrow>
     grown st st'"
  unfolding deleteDependentObjects_def
  by (rule scan_grown[rotated]) (assumption, erule recursiveDeletion_grown)

lemma grown_depRel: "grown st st' \<Longrightarrow> set (depRel st') \<subseteq> set (depRel st)"
  by (auto simp: grown_def dest: thinned_set)

lemma grown_deleted: "grown st st' \<Longrightarrow> \<exists>new. deleted st' = deleted st @ new"
  by (auto simp: grown_def prefix_def)




section \<open>Concrete runs of the deletion engine\<close>

text \<open>
  C1 (what the code does): function 3 depends on function 1 (NORMAL), function 2 depends
  on function 3 (AUTO) and on function 1 (NORMAL). For a RESTRICT drop of function 1
  the pre-scan gives \<^verbatim>\<open>oktodelete\<close> = [function 1] in either scan order. When the tuple
  of function 3 is scanned first, the only violation reported is "3 depends on 1";
  when the tuple of function 2 is scanned first, "2 depends on 1" is reported as well.
  The objects deleted and the result are the same.
\<close>

theorem restrict_notices_depend_on_scan_order:
  "findAutoDeletableObjects 4 example_env (func 1) new_object_addresses
      [func_depends 0 3 1 DEPENDENCY_NORMAL, func_depends 1 2 3 DEPENDENCY_AUTO,
       func_depends 2 2 1 DEPENDENCY_NORMAL] True = Some (Inr [func 1])
   \<and> findAutoDeletableObjects 4 example_env (func 1) new_object_addresses
      [func_depends 2 2 1 DEPENDENCY_NORMAL, func_depends 0 3 1 DEPENDENCY_NORMAL,
       func_depends 1 2 3 DEPENDENCY_AUTO] True = Some (Inr [func 1])
   \<and> map_option (map_sum id (\<lambda>(ok, st). (ok, deleted st, notices st)))
       (recursiveDeletion 4 example_env (func 1) DROP_RESTRICT NOTICE None [func 1]
          (catalog_of [func_depends 0 3 1 DEPENDENCY_NORMAL, func_depends 1 2 3 DEPENDENCY_AUTO,
                       func_depends 2 2 1 DEPENDENCY_NORMAL]))
     = Some (Inr (False, [func 2, func 3, func 1], [depends_on (func 3) (func 1)]))
   \<and> map_option (map_sum id (\<lambda>(ok, st). (ok, deleted st, notices st)))
       (recursiveDeletion 4 example_env (func 1) DROP_RESTRICT NOTICE None [func 1]
          (catalog_of [func_depends 2 2 1 DEPENDENCY_NORMAL, func_depends 0 3 1 DEPENDENCY_NORMAL,
                       func_depends 1 2 3 DEPENDENCY_AUTO]))
     = Some (Inr (False, [func 2, func 3, func 1],
                  [depends_on (func 2) (func 1), depends_on (func 3) (func 1)]))"
  by code_simp

text \<open>
  C8 (what the code does): function 3 depends on function 1 (NORMAL), function 2 depends
  on function 3 (NORMAL) and is an internal part of function 1. Dropping function 1
  with CASCADE reaches function 2 from function 3, which redirects the deletion to its
  owner, function 1, while the outer deletion of function 1 is still scanning: the
  destructor of function 1 runs twice.
\<close>

theorem performMultipleDeletions_drops_twice:
  "map_option (map_sum id deleted)
     (performMultipleDeletions 5 example_env [func 1] DROP_CASCADE
        (catalog_of [func_depends 0 3 1 DEPENDENCY_NORMAL, func_depends 1 2 3 DEPENDENCY_NORMAL,
                     func_depends 2 2 1 DEPENDENCY_INTERNAL]))
   = Some (Inr [func 2, func 1, func 3, func 1])
   \<and> map_option (map_sum id calls)
     (performMultipleDeletions 5 example_env [func 1] DROP_CASCADE
        (catalog_of [func_depends 0 3 1 DEPENDENCY_NORMAL, func_depends 1 2 3 DEPENDENCY_NORMAL,
                     func_depends 2 2 1 DEPENDENCY_INTERNAL]))
   = Some (Inr [RemoveFunctionById 2, DeleteComments 2 1255 0, deleteSharedDependencyRecordsFor 1255 2,
                RemoveFunctionById 1, DeleteComments 1 1255 0, deleteSharedDependencyRecordsFor 1255 1,
                RemoveFunctionById 3, DeleteComments 3 1255 0, deleteSharedDependencyRecordsFor 1255 3,
                RemoveFunctionById 1, DeleteComments 1 1255 0, deleteSharedDependencyRecordsFor 1255 1])"
  by code_simp


text \<open>
  With the INTERNAL tuple of function 2 scanned first, the same graph is dropped with
  every destructor run once.
\<close>

lemma performMultipleDeletions_other_order:
  "map_option (map_sum id deleted)
     (performMultipleDeletions 5 example_env [func 1] DROP_CASCADE
        (catalog_of [func_depends 2 2 1 DEPENDENCY_INTERNAL, func_depends 0 3 1 DEPENDENCY_NORMAL,
                     func_depends 1 2 3 DEPENDENCY_NORMAL]))
   = Some (Inr [func 2, func 3, func 1])"
  by code_simp

lemma example_description [simp]:
  "getObjectDescription example_env (func n) = Inr (''object'', [])"
  by (simp add: getObjectDescription_def getObjectClass_def Assert_whole_object_def
        example_env_def example_classes_def func_def)

lemma example_ereport_description [simp]:
  "ereport_description example_env lvl m (func n) st = Inr (ereport lvl m st)"
  by (simp add: ereport_description_def)

lemma cycle_scans:
  "scan_depender (func 2) internal_cycle = [func_depends 11 2 3 DEPENDENCY_INTERNAL]"
  "scan_depender (func 3) internal_cycle = [func_depends 12 3 4 DEPENDENCY_INTERNAL]"
  "scan_depender (func 4) internal_cycle = [func_depends 13 4 2 DEPENDENCY_INTERNAL]"
  by (simp_all add: scan_depender_def internal_cycle_def func_def func_depends_def)

lemma cycle_step1:
  "recursiveDeletion_step1 example_env d (Some (func 4)) [func_depends 11 2 3 DEPENDENCY_INTERNAL] None rel
     = Inr (Some (func 3), rel)"
  "recursiveDeletion_step1 example_env d (Some (func 2)) [func_depends 12 3 4 DEPENDENCY_INTERNAL] None rel
     = Inr (Some (func 4), rel)"
  "recursiveDeletion_step1 example_env d (Some (func 3)) [func_depends 13 4 2 DEPENDENCY_INTERNAL] None rel
     = Inr (Some (func 2), rel)"
  by (simp_all add: func_def func_depends_def referenced_object_def
        DEPENDENCY_INTERNAL_def DEPENDENCY_NORMAL_def DEPENDENCY_AUTO_def)

lemma owned_redirect_diverges:
  assumes d: "getObjectDescription e object = Inr (d, ns)"
    and s: "recursiveDeletion_step1 e d callingObject (scan_depender object (depRel st)) None (depRel st)
              = Inr (Some owner, rel)"
    and r: "\<And>st'. depRel st' = rel \<Longrightarrow>
              recursiveDeletion fuel e owner behavior msglevel (Some object) oktodelete st' = None"
    and x: "\<And>lvl m st'. \<exists>st''. ereport_description e lvl m owner st' = Inr st'' \<and> depRel st'' = depRel st'"
  shows "recursiveDeletion (Suc fuel) e object behavior msglevel callingObject oktodelete st = None"
proof -
  let ?sr = "site_report e behavior msglevel oktodelete owner object"
  from x[of "fst ?sr" "snd ?sr" "(report ns st)\<lparr>depRel := rel\<rparr>"] obtain st'' where
    "ereport_description e (fst ?sr) (snd ?sr) owner ((report ns st)\<lparr>depRel := rel\<rparr>) = Inr st''"
    "depRel st'' = rel"
    by auto
  with r[of st''] show ?thesis
    unfolding recursiveDeletion_owned[OF d s] by simp
qed

lemma example_reports:
  "\<exists>st''. ereport_description example_env lvl m (func n) st' = Inr st'' \<and> depRel st'' = depRel st'"
  by simp

lemma internal_cycle_diverges:
  "depRel st = internal_cycle \<Longrightarrow>
     recursiveDeletion fuel example_env (func 2) behavior msglevel (Some (func 4)) oktodelete st = None \<and>
     recursiveDeletion fuel example_env (func 3) behavior msglevel (Some (func 2)) oktodelete st = None \<and>
     recursiveDeletion fuel example_env (func 4) behavior msglevel (Some (func 3)) oktodelete st = None"
proof (induction fuel arbitrary: st)
  case 0
  show ?case by simp
next
  case (Suc fuel)
  have a: "recursiveDeletion (Suc fuel) example_env (func 2) behavior msglevel (Some (func 4)) oktodelete st = None"
    by (rule owned_redirect_diverges[where owner = "func 3" and rel = internal_cycle
          and d = "''object''" and ns = "[]", OF _ _ _ example_reports])
       (simp_all add: Suc.prems cycle_scans cycle_step1 Suc.IH del: recursiveDeletion_step1.simps)
  have b: "recursiveDeletion (Suc fuel) example_env (func 3) behavior msglevel (Some (func 2)) oktodelete st = None"
    by (rule owned_redirect_diverges[where owner = "func 4" and rel = internal_cycle
          and d = "''object''" and ns = "[]", OF _ _ _ example_reports])
       (simp_all add: Suc.prems cycle_scans cycle_step1 Suc.IH del: recursiveDeletion_step1.simps)
  have c: "recursiveDeletion (Suc fuel) example_env (func 4) behavior msglevel (Some (func 3)) oktodelete st = None"
    by (rule owned_redirect_diverges[where owner = "func 2" and rel = internal_cycle
          and d = "''object''" and ns = "[]", OF _ _ _ example_reports])
       (simp_all add: Suc.prems cycle_scans cycle_step1 Suc.IH del: recursiveDeletion_step1.simps)
  from a b c show ?case by simp
qed


lemma entry_scans:
  "scan_depender (func 1) (func_depends 10 2 1 DEPENDENCY_NORMAL # internal_cycle) = []"
  "scan_reference (func 1) (func_depends 10 2 1 DEPENDENCY_NORMAL # internal_cycle) =
     [func_depends 10 2 1 DEPENDENCY_NORMAL]"
  "scan_depender (func 2) (func_depends 10 2 1 DEPENDENCY_NORMAL # internal_cycle) =
     [func_depends 10 2 1 DEPENDENCY_NORMAL, func_depends 11 2 3 DEPENDENCY_INTERNAL]"
  by (simp_all add: scan_depender_def scan_reference_def internal_cycle_def func_def func_depends_def)

lemma entry_step1:
  "recursiveDeletion_step1 example_env d (Some (func 1))
     [func_depends 10 2 1 DEPENDENCY_NORMAL, func_depends 11 2 3 DEPENDENCY_INTERNAL] None
     (func_depends 10 2 1 DEPENDENCY_NORMAL # internal_cycle)
     = Inr (Some (func 3), internal_cycle)"
  by (simp add: func_def func_depends_def referenced_object_def caql_delete_current_def
        internal_cycle_def DEPENDENCY_INTERNAL_def DEPENDENCY_NORMAL_def DEPENDENCY_AUTO_def)

lemma entry_prescan:
  "findAutoDeletableObjects (Suc fuel) example_env (func 1) new_object_addresses
     (func_depends 10 2 1 DEPENDENCY_NORMAL # internal_cycle) True = Some (Inr [func 1])"
proof -
  have "deptype (func_depends 10 2 1 DEPENDENCY_NORMAL) = DEPENDENCY_NORMAL"
    by (simp add: func_depends_def)
  then show ?thesis
    unfolding findAutoDeletableObjects.simps entry_scans
    by (simp add: new_object_addresses_def object_address_present_def
          add_exact_object_address_def)
qed

lemma entry_dependent_diverges:
  assumes "depRel st = func_depends 10 2 1 DEPENDENCY_NORMAL # internal_cycle"
  shows "recursiveDeletion fuel example_env (func 2) behavior msglevel (Some (func 1)) oktodelete st = None"
proof (cases fuel)
  case 0
  then show ?thesis by simp
next
  case (Suc n)
  show ?thesis
    unfolding Suc
    by (rule owned_redirect_diverges[where owner = "func 3" and rel = internal_cycle
          and d = "''object''" and ns = "[]", OF _ _ _ example_reports])
       (simp_all add: assms entry_scans entry_step1 internal_cycle_diverges
          del: recursiveDeletion_step1.simps)
qed

lemma scan_normal_diverges:
  assumes "tup \<in> set (depRel st)" and "deptype tup = DEPENDENCY_NORMAL"
    and "\<And>st'. depRel st' = depRel st \<Longrightarrow>
            recursiveDeletion fuel e (dependent_object tup) behavior msglevel (Some object)
              oktodelete st' = None"
    and "\<And>lvl m st'. \<exists>st''. ereport_description e lvl m (dependent_object tup) st' = Inr st'' \<and>
            depRel st'' = depRel st'"
  shows "deleteDependentObjects_scan fuel e object d behavior msglevel oktodelete (tup # tups) ok st = None"
proof -
  let ?tr = "tuple_report e behavior msglevel oktodelete tup object"
  from assms(4)[of "fst ?tr" "snd ?tr" st] obtain st'' where
    "ereport_description e (fst ?tr) (snd ?tr) (dependent_object tup) st = Inr st''"
    "depRel st'' = depRel st"
    by auto
  with assms(3)[of st''] show ?thesis
    unfolding scan_Cons[OF assms(1) disjI1[OF assms(2)]] by simp
qed

lemma not_owned_diverges:
  assumes "getObjectDescription e object = Inr (d, ns)"
    and "recursiveDeletion_step1 e d callingObject (scan_depender object (depRel st)) None (depRel st)
              = Inr (None, rel)"
    and "deleteDependentObjects_scan fuel e object d behavior msglevel oktodelete
            (scan_reference object rel) True ((report ns st)\<lparr>depRel := rel\<rparr>) = None"
  shows "recursiveDeletion (Suc fuel) e object behavior msglevel callingObject oktodelete st = None"
  unfolding recursiveDeletion_not_owned[OF assms(1,2)] using assms(3) by simp

text \<open>
  C5 (what the code does): function 2 depends on function 1 (NORMAL), and functions 2, 3
  and 4 are each an internal part of the next (2 of 3, 3 of 4, 4 of 2). Dropping
  function 1 with CASCADE reaches function 2, which keeps its INTERNAL tuple and
  redirects to function 3, which redirects to 4, which redirects to 2, and so on: no
  tuple is deleted on the way and the recursion does not return, whatever the depth
  allowed.
\<close>

theorem performDeletion_internal_cycle_never_returns:
  "performDeletion fuel example_env (func 1) DROP_CASCADE
     (catalog_of [func_depends 10 2 1 DEPENDENCY_NORMAL, func_depends 11 2 3 DEPENDENCY_INTERNAL,
                  func_depends 12 3 4 DEPENDENCY_INTERNAL, func_depends 13 4 2 DEPENDENCY_INTERNAL])
   = None"
proof (cases fuel)
  case 0
  then show ?thesis by (simp add: performDeletion_def)
next
  case (Suc n)
  let ?r = "func_depends 10 2 1 DEPENDENCY_NORMAL"
  let ?rel = "?r # internal_cycle"
  let ?st = "catalog_of ?rel\<lparr>messages := messages (catalog_of ?rel) @ [], alreadyDeleted := None\<rparr>"
  have rel: "[func_depends 10 2 1 DEPENDENCY_NORMAL, func_depends 11 2 3 DEPENDENCY_INTERNAL,
              func_depends 12 3 4 DEPENDENCY_INTERNAL, func_depends 13 4 2 DEPENDENCY_INTERNAL] = ?rel"
    by (simp add: internal_cycle_def)
  have st: "depRel ?st = ?rel" by (simp add: catalog_of_def)
  have d2: "dependent_object ?r = func 2"
    by (simp add: dependent_object_def func_depends_def func_def)
  have nt: "deptype ?r = DEPENDENCY_NORMAL"
    by (simp add: func_depends_def)
  have scan: "deleteDependentObjects_scan n example_env (func 1) ''object'' DROP_CASCADE NOTICE [func 1]
          [?r] True ((report [] ?st)\<lparr>depRel := ?rel\<rparr>) = None"
  proof (rule scan_normal_diverges)
    show "?r \<in> set (depRel ((report [] ?st)\<lparr>depRel := ?rel\<rparr>))" by simp
    show "deptype ?r = DEPENDENCY_NORMAL" by (rule nt)
    show "recursiveDeletion n example_env (dependent_object ?r) DROP_CASCADE NOTICE (Some (func 1))
            [func 1] st' = None" if "depRel st' = depRel ((report [] ?st)\<lparr>depRel := ?rel\<rparr>)" for st'
      unfolding d2 by (rule entry_dependent_diverges) (use that in simp)
    show "\<exists>st''. ereport_description example_env lvl m (dependent_object ?r) st' = Inr st'' \<and>
            depRel st'' = depRel st'" for lvl m st'
      unfolding d2 by (rule example_reports)
  qed
  have "recursiveDeletion (Suc n) example_env (func 1) DROP_CASCADE NOTICE None [func 1] ?st = None"
  proof (rule not_owned_diverges[where d = "''object''" and ns = "[]" and rel = ?rel])
    show "getObjectDescription example_env (func 1) = Inr (''object'', [])" by simp
    show "recursiveDeletion_step1 example_env ''object'' None (scan_depender (func 1) (depRel ?st))
            None (depRel ?st) = Inr (None, ?rel)"
      unfolding st entry_scans by simp
    show "deleteDependentObjects_scan n example_env (func 1) ''object'' DROP_CASCADE NOTICE [func 1]
            (scan_reference (func 1) ?rel) True ((report [] ?st)\<lparr>depRel := ?rel\<rparr>) = None"
      unfolding entry_scans by (rule scan)
  qed
  moreover have "depRel (catalog_of ?rel) = ?rel" by (simp add: catalog_of_def)
  ultimately show ?thesis
    unfolding Suc rel performDeletion_def
    by (simp add: entry_prescan del: recursiveDeletion.simps findAutoDeletableObjects.simps)
qed

section \<open>INTERNAL dependencies in Step 1\<close>

lemma step1_not_owned_deletes:
  assumes "recursiveDeletion_step1 e d (Some caller) tups None rel = Inr (None, rel')"
  shows "\<forall>t \<in> set tups. t \<notin> set rel'"
proof -
  note c = step1_characterisation[OF assms]
  from c have "\<forall>t \<in> set tups. \<not> kept_internal caller t" by auto
  with c show ?thesis by auto
qed

lemma recursiveDeletion_continues:
  assumes d: "getObjectDescription e object = Inr (d, ns)"
    and s: "recursiveDeletion_step1 e d (Some caller) (scan_depender object (depRel st)) None (depRel st)
              = Inr (None, rel')"
    and r: "recursiveDeletion (Suc fuel) e object behavior msglevel (Some caller) oktodelete st =
              Some (Inr (ok, st'))"
  shows "(\<forall>t \<in> set (scan_depender object (depRel st)). t \<notin> set (depRel st')) \<and>
         (\<exists>xs. deleted st' = deleted st @ xs @ [object])"
proof -
  from r obtain st2 dl where
    sc: "deleteDependentObjects_scan fuel e object d behavior msglevel oktodelete
           (scan_reference object rel') True ((report ns st)\<lparr>depRel := rel'\<rparr>) = Some (Inr (ok, st2))"
    and st': "st' = recursiveDeletion_step3 object dl st2"
    unfolding recursiveDeletion_not_owned[OF d s]
    by (auto split: option.splits sum.splits)
  have g: "grown ((report ns st)\<lparr>depRel := rel'\<rparr>) st2"
    by (rule scan_grown[rotated, OF sc]) (erule recursiveDeletion_grown)
  from grown_depRel[OF g] have "set (depRel st') \<subseteq> set rel'" unfolding st' by simp
  with step1_not_owned_deletes[OF s]
  have a: "\<forall>t \<in> set (scan_depender object (depRel st)). t \<notin> set (depRel st')" by blast
  from grown_deleted[OF g] obtain xs where "deleted st2 = deleted st @ xs" by auto
  then have "deleted st' = deleted st @ xs @ [object]" unfolding st' by simp
  with a show ?thesis by blast
qed

text \<open>
  C4: at the outermost level (no calling object) \<^verbatim>\<open>recursiveDeletion\<close> raises
  "cannot drop ... because ... requires it" (with \<^verbatim>\<open>ERRCODE_DEPENDENT_OBJECTS_STILL_EXIST\<close>),
  naming the referenced object, at the first INTERNAL tuple of the Step 1 scan. When
  recursing, a run of Step 1 that returns deletes every scanned tuple except the
  INTERNAL tuples whose referenced object the caller does not match (same triple, or
  same class and object id with caller sub-id 0): such a tuple stays in
  \<^verbatim>\<open>pg_depend\<close> and its referenced object becomes the owning object; the object is
  not owned exactly when the caller matches every INTERNAL tuple scanned. An owned
  object is not deleted by this call: after the report on the owner (a violation
  exactly under RESTRICT with the owner not in \<^verbatim>\<open>oktodelete\<close>), the result is that of
  the recursion into the owner, false if a violation was reported. An object that is
  not owned is deleted by this call: the result is that of Step 2 and Step 3 run on
  \<^verbatim>\<open>pg_depend\<close> without the tuples of Step 1, and when the call returns none of
  these tuples is left and the object is the last one destroyed.
\<close>

theorem recursiveDeletion_internal_dependency:
  "(getObjectDescription e object = Inr (d, ns) \<and>
    scan_depender object (depRel st) = pre @ tup # post \<and>
    (\<forall>t \<in> set pre. deptype t = DEPENDENCY_NORMAL \<or> deptype t = DEPENDENCY_AUTO) \<and>
    deptype tup = DEPENDENCY_INTERNAL \<and>
    getObjectDescription e (referenced_object tup) = Inr (otherObjDesc, ns') \<longrightarrow>
      recursiveDeletion (Suc fuel) e object behavior msglevel None oktodelete st =
        Some (Inl (cannot_drop_requires_it d otherObjDesc)) \<and>
      is_DEPENDENT_OBJECTS_STILL_EXIST (cannot_drop_requires_it d otherObjDesc))
   \<and> (recursiveDeletion_step1 e d (Some caller) tups None rel = Inr (owning, rel') \<longrightarrow>
        rel' = filter (\<lambda>t. t \<notin> set tups \<or>
                 (deptype t = DEPENDENCY_INTERNAL \<and> \<not> caller_matches caller (referenced_object t))) rel
        \<and> (\<forall>t \<in> set tups. deptype t = DEPENDENCY_INTERNAL \<longrightarrow>
              (if caller_matches caller (referenced_object t) then t \<notin> set rel'
               else owning = Some (referenced_object t) \<and> (t \<in> set rel \<longrightarrow> t \<in> set rel')))
        \<and> (owning = None \<longleftrightarrow>
              (\<forall>t \<in> set tups. deptype t = DEPENDENCY_INTERNAL \<longrightarrow>
                 caller_matches caller (referenced_object t))))
   \<and> (getObjectDescription e object = Inr (d, ns) \<and>
       recursiveDeletion_step1 e d (Some caller) (scan_depender object (depRel st)) None (depRel st) =
         Inr (Some ow, rel') \<longrightarrow>
        recursiveDeletion (Suc fuel) e object behavior msglevel (Some caller) oktodelete st =
          (case ereport_description e (fst (site_report e behavior msglevel oktodelete ow object))
                  (snd (site_report e behavior msglevel oktodelete ow object)) ow
                  ((report ns st)\<lparr>depRel := rel'\<rparr>) of
             Inl err \<Rightarrow> Some (Inl err)
           | Inr st2 \<Rightarrow>
               (case recursiveDeletion fuel e ow behavior msglevel (Some object) oktodelete st2 of
                  None \<Rightarrow> None
                | Some (Inl err) \<Rightarrow> Some (Inl err)
                | Some (Inr (ok', st3)) \<Rightarrow>
                    Some (Inr (ok' \<and> (object_address_present ow oktodelete \<or> behavior \<noteq> DROP_RESTRICT),
                               st3)))))
   \<and> (getObjectDescription e object = Inr (d, ns) \<and>
       recursiveDeletion_step1 e d (Some caller) (scan_depender object (depRel st)) None (depRel st) =
         Inr (None, rel') \<longrightarrow>
        recursiveDeletion (Suc fuel) e object behavior msglevel (Some caller) oktodelete st =
          (case deleteDependentObjects fuel e object d behavior msglevel oktodelete
                  ((report ns st)\<lparr>depRel := rel'\<rparr>) of
             None \<Rightarrow> None
           | Some (Inl err) \<Rightarrow> Some (Inl err)
           | Some (Inr (ok', st2)) \<Rightarrow>
               (case doDeletion e object of
                  Inl err \<Rightarrow> Some (Inl err)
                | Inr dl \<Rightarrow> Some (Inr (ok', recursiveDeletion_step3 object dl st2))))
        \<and> (recursiveDeletion (Suc fuel) e object behavior msglevel (Some caller) oktodelete st =
              Some (Inr (ok, st')) \<longrightarrow>
             (\<forall>t \<in> set (scan_depender object (depRel st)). t \<notin> set (depRel st')) \<and>
             (\<exists>xs. deleted st' = deleted st @ xs @ [object])))"
proof (intro conjI impI)
  assume h: "getObjectDescription e object = Inr (d, ns) \<and>
    scan_depender object (depRel st) = pre @ tup # post \<and>
    (\<forall>t \<in> set pre. deptype t = DEPENDENCY_NORMAL \<or> deptype t = DEPENDENCY_AUTO) \<and>
    deptype tup = DEPENDENCY_INTERNAL \<and>
    getObjectDescription e (referenced_object tup) = Inr (otherObjDesc, ns')"
  then have "recursiveDeletion_step1 e d None (scan_depender object (depRel st)) None (depRel st) =
               Inl (cannot_drop_requires_it d otherObjDesc)"
    by (simp add: step1_outermost_internal)
  with h show "recursiveDeletion (Suc fuel) e object behavior msglevel None oktodelete st =
        Some (Inl (cannot_drop_requires_it d otherObjDesc))"
    by simp
  show "is_DEPENDENT_OBJECTS_STILL_EXIST (cannot_drop_requires_it d otherObjDesc)" by simp
next
  assume s: "recursiveDeletion_step1 e d (Some caller) tups None rel = Inr (owning, rel')"
  note c = step1_characterisation[OF s]
  from c show "rel' = filter (\<lambda>t. t \<notin> set tups \<or>
                 (deptype t = DEPENDENCY_INTERNAL \<and> \<not> caller_matches caller (referenced_object t))) rel"
    by (simp add: kept_internal_def)
  from c show "\<forall>t \<in> set tups. deptype t = DEPENDENCY_INTERNAL \<longrightarrow>
              (if caller_matches caller (referenced_object t) then t \<notin> set rel'
               else owning = Some (referenced_object t) \<and> (t \<in> set rel \<longrightarrow> t \<in> set rel'))"
    by (auto simp: kept_internal_def)
  from c show "owning = None \<longleftrightarrow>
              (\<forall>t \<in> set tups. deptype t = DEPENDENCY_INTERNAL \<longrightarrow>
                 caller_matches caller (referenced_object t))"
    by (auto simp: kept_internal_def)
next
  assume "getObjectDescription e object = Inr (d, ns) \<and>
       recursiveDeletion_step1 e d (Some caller) (scan_depender object (depRel st)) None (depRel st) =
         Inr (Some ow, rel')"
  then have d: "getObjectDescription e object = Inr (d, ns)"
    and s: "recursiveDeletion_step1 e d (Some caller) (scan_depender object (depRel st)) None (depRel st) =
         Inr (Some ow, rel')"
    by simp_all
  show "recursiveDeletion (Suc fuel) e object behavior msglevel (Some caller) oktodelete st =
          (case ereport_description e (fst (site_report e behavior msglevel oktodelete ow object))
                  (snd (site_report e behavior msglevel oktodelete ow object)) ow
                  ((report ns st)\<lparr>depRel := rel'\<rparr>) of
             Inl err \<Rightarrow> Some (Inl err)
           | Inr st2 \<Rightarrow>
               (case recursiveDeletion fuel e ow behavior msglevel (Some object) oktodelete st2 of
                  None \<Rightarrow> None
                | Some (Inl err) \<Rightarrow> Some (Inl err)
                | Some (Inr (ok', st3)) \<Rightarrow>
                    Some (Inr (ok' \<and> (object_address_present ow oktodelete \<or> behavior \<noteq> DROP_RESTRICT),
                               st3))))"
    unfolding recursiveDeletion_owned[OF d s] is_violation_site_report
    by (auto split: sum.splits option.splits)
next
  assume "getObjectDescription e object = Inr (d, ns) \<and>
       recursiveDeletion_step1 e d (Some caller) (scan_depender object (depRel st)) None (depRel st) =
         Inr (None, rel')"
  then have d: "getObjectDescription e object = Inr (d, ns)"
    and s: "recursiveDeletion_step1 e d (Some caller) (scan_depender object (depRel st)) None (depRel st) =
         Inr (None, rel')"
    by simp_all
  show "recursiveDeletion (Suc fuel) e object behavior msglevel (Some caller) oktodelete st =
          (case deleteDependentObjects fuel e object d behavior msglevel oktodelete
                  ((report ns st)\<lparr>depRel := rel'\<rparr>) of
             None \<Rightarrow> None
           | Some (Inl err) \<Rightarrow> Some (Inl err)
           | Some (Inr (ok', st2)) \<Rightarrow>
               (case doDeletion e object of
                  Inl err \<Rightarrow> Some (Inl err)
                | Inr dl \<Rightarrow> Some (Inr (ok', recursiveDeletion_step3 object dl st2))))"
    unfolding recursiveDeletion_not_owned[OF d s] deleteDependentObjects_def by simp
  assume "recursiveDeletion (Suc fuel) e object behavior msglevel (Some caller) oktodelete st =
              Some (Inr (ok, st'))"
  from recursiveDeletion_continues[OF d s this]
  show "\<forall>t \<in> set (scan_depender object (depRel st)). t \<notin> set (depRel st')"
    and "\<exists>xs. deleted st' = deleted st @ xs @ [object]"
    by simp_all
qed

text \<open>
  Function 2 depends on function 3 and is an internal part of function 1. Dropped
  directly, it is refused; reached from function 3, it is owned by function 1 and keeps
  its INTERNAL tuple, and the deletion goes on at function 1, which deletes it; reached
  from function 1, it is deleted and both tuples are gone.
\<close>

theorem recursiveDeletion_internal_dependency_witness:
  "recursiveDeletion (Suc 2) example_env (func 2) DROP_CASCADE NOTICE None [func 2]
     (catalog_of [func_depends 20 2 3 DEPENDENCY_NORMAL, func_depends 21 2 1 DEPENDENCY_INTERNAL]) =
     Some (Inl (cannot_drop_requires_it ''object'' ''object''))
   \<and> recursiveDeletion_step1 example_env ''object'' (Some (func 3))
        [func_depends 20 2 3 DEPENDENCY_NORMAL, func_depends 21 2 1 DEPENDENCY_INTERNAL] None
        [func_depends 20 2 3 DEPENDENCY_NORMAL, func_depends 21 2 1 DEPENDENCY_INTERNAL]
      = Inr (Some (func 1), [func_depends 21 2 1 DEPENDENCY_INTERNAL])
   \<and> recursiveDeletion_step1 example_env ''object'' (Some (func 1))
        [func_depends 20 2 3 DEPENDENCY_NORMAL, func_depends 21 2 1 DEPENDENCY_INTERNAL] None
        [func_depends 20 2 3 DEPENDENCY_NORMAL, func_depends 21 2 1 DEPENDENCY_INTERNAL]
      = Inr (None, [])
   \<and> recursiveDeletion (Suc 2) example_env (func 2) DROP_CASCADE NOTICE (Some (func 3)) []
       (catalog_of [func_depends 20 2 3 DEPENDENCY_NORMAL, func_depends 21 2 1 DEPENDENCY_INTERNAL]) =
     recursiveDeletion 2 example_env (func 1) DROP_CASCADE NOTICE (Some (func 2)) []
       (ereport NOTICE (drop_cascades_to (func 1))
          (catalog_of [func_depends 21 2 1 DEPENDENCY_INTERNAL]))
   \<and> map_option (map_sum id (\<lambda>(ok, st). (ok, depRel st, deleted st)))
       (recursiveDeletion (Suc 2) example_env (func 2) DROP_CASCADE NOTICE (Some (func 3)) []
          (catalog_of [func_depends 20 2 3 DEPENDENCY_NORMAL, func_depends 21 2 1 DEPENDENCY_INTERNAL]))
     = Some (Inr (True, [], [func 2, func 1]))
   \<and> map_option (map_sum id (\<lambda>(ok, st). (ok, depRel st, deleted st)))
       (recursiveDeletion (Suc 2) example_env (func 2) DROP_CASCADE NOTICE (Some (func 1)) []
          (catalog_of [func_depends 20 2 3 DEPENDENCY_NORMAL, func_depends 21 2 1 DEPENDENCY_INTERNAL]))
     = Some (Inr (True, [], [func 2]))
   \<and> (\<exists>ok st'. recursiveDeletion (Suc 2) example_env (func 2) DROP_CASCADE NOTICE (Some (func 1)) []
          (catalog_of [func_depends 20 2 3 DEPENDENCY_NORMAL, func_depends 21 2 1 DEPENDENCY_INTERNAL]) =
          Some (Inr (ok, st')) \<and>
        func_depends 21 2 1 DEPENDENCY_INTERNAL \<notin> set (depRel st') \<and>
        (\<exists>xs. deleted st' = xs @ [func 2]))"
proof -
  let ?n = "func_depends 20 2 3 DEPENDENCY_NORMAL"
  let ?i = "func_depends 21 2 1 DEPENDENCY_INTERNAL"
  let ?st = "catalog_of [?n, ?i]"
  have d: "getObjectDescription example_env (func 2) = Inr (''object'', [])"
          "getObjectDescription example_env (referenced_object ?i) = Inr (''object'', [])"
    by (simp_all add: getObjectDescription_def getObjectClass_def Assert_whole_object_def
          example_env_def example_classes_def func_def func_depends_def referenced_object_def)
  have sc: "scan_depender (func 2) (depRel ?st) = [?n] @ ?i # []"
    by (simp add: scan_depender_def catalog_of_def func_def func_depends_def)
  have sc': "scan_depender (func 2) (depRel ?st) = [?n, ?i]" using sc by simp
  have rel: "depRel ?st = [?n, ?i]" by (simp add: catalog_of_def)
  have scl: "scan_depender (func 2) [?n, ?i] = [?n, ?i]"
    by (simp add: scan_depender_def func_def func_depends_def)
  have ty: "\<forall>t \<in> set [?n]. deptype t = DEPENDENCY_NORMAL \<or> deptype t = DEPENDENCY_AUTO"
           "deptype ?i = DEPENDENCY_INTERNAL"
    by (simp_all add: func_depends_def)
  have s3: "recursiveDeletion_step1 example_env ''object'' (Some (func 3)) [?n, ?i] None [?n, ?i]
      = Inr (Some (func 1), [?i])"
    by (simp add: func_def func_depends_def referenced_object_def caql_delete_current_def deptype_defs)
  have s1: "recursiveDeletion_step1 example_env ''object'' (Some (func 1)) [?n, ?i] None [?n, ?i]
      = Inr (None, [])"
    by (simp add: func_def func_depends_def referenced_object_def caql_delete_current_def deptype_defs)
  from recursiveDeletion_internal_dependency
         [of example_env "func 2" "''object''" "[]" ?st "[?n]" ?i "[]" "''object''" "[]"
             2 DROP_CASCADE NOTICE "[func 2]"] d sc ty
  have a: "recursiveDeletion (Suc 2) example_env (func 2) DROP_CASCADE NOTICE None [func 2] ?st =
             Some (Inl (cannot_drop_requires_it ''object'' ''object''))"
    by blast
  have sr: "site_report example_env DROP_CASCADE NOTICE [] (func 1) (func 2) =
              (NOTICE, drop_cascades_to (func 1))"
    by (simp add: site_report_def cascade_level_def object_address_present_def example_env_def)
  have st1: "(report [] ?st)\<lparr>depRel := [?i]\<rparr> = catalog_of [?i]"
    by (simp add: catalog_of_def)
  have np: "\<not> object_address_present (func 1) []"
    by (simp add: object_address_present_def)
  have s3': "recursiveDeletion_step1 example_env ''object'' (Some (func 3))
               (scan_depender (func 2) (depRel ?st)) None (depRel ?st) = Inr (Some (func 1), [?i])"
    unfolding rel scl by (rule s3)
  note owned = recursiveDeletion_internal_dependency
         [where e = example_env and object = "func 2" and d = "''object''" and ns = "[]" and st = ?st
            and caller = "func 3" and ow = "func 1" and rel' = "[?i]" and fuel = 2
            and behavior = DROP_CASCADE and msglevel = NOTICE and oktodelete = "[]",
          THEN conjunct2, THEN conjunct2, THEN conjunct1, rule_format, OF conjI[OF d(1) s3']]
  have b: "recursiveDeletion (Suc 2) example_env (func 2) DROP_CASCADE NOTICE (Some (func 3)) [] ?st =
     recursiveDeletion 2 example_env (func 1) DROP_CASCADE NOTICE (Some (func 2)) []
       (ereport NOTICE (drop_cascades_to (func 1)) (catalog_of [?i]))"
    unfolding owned sr st1
    by (simp add: np del: recursiveDeletion.simps split: option.splits sum.splits)
  have r3: "map_option (map_sum id (\<lambda>(ok, st). (ok, depRel st, deleted st)))
       (recursiveDeletion (Suc 2) example_env (func 2) DROP_CASCADE NOTICE (Some (func 3)) [] ?st)
     = Some (Inr (True, [], [func 2, func 1]))"
    by code_simp
  have r1: "map_option (map_sum id (\<lambda>(ok, st). (ok, depRel st, deleted st)))
       (recursiveDeletion (Suc 2) example_env (func 2) DROP_CASCADE NOTICE (Some (func 1)) [] ?st)
     = Some (Inr (True, [], [func 2]))"
    by code_simp
  let ?stC = "\<lparr>depRel = [],
         calls = [RemoveFunctionById 2, DeleteComments 2 1255 0, deleteSharedDependencyRecordsFor 1255 2],
         messages = [], deleted = [func 2], alreadyDeleted = None\<rparr>"
  have rC: "recursiveDeletion (Suc 2) example_env (func 2) DROP_CASCADE NOTICE (Some (func 1)) [] ?st =
              Some (Inr (True, ?stC))"
    by code_simp
  have s1': "recursiveDeletion_step1 example_env ''object'' (Some (func 1))
               (scan_depender (func 2) (depRel ?st)) None (depRel ?st) = Inr (None, [])"
    unfolding rel scl by (rule s1)
  note continues = recursiveDeletion_internal_dependency
         [where e = example_env and object = "func 2" and d = "''object''" and ns = "[]" and st = ?st
            and caller = "func 1" and rel' = "[]" and fuel = 2 and ok = True and st' = ?stC
            and behavior = DROP_CASCADE and msglevel = NOTICE and oktodelete = "[]",
          THEN conjunct2, THEN conjunct2, THEN conjunct2, THEN mp, OF conjI[OF d(1) s1'],
          THEN conjunct2, THEN mp, OF rC]
  from continues have gone: "?i \<notin> set (depRel ?stC)" unfolding rel scl by simp
  from continues have "\<exists>xs. deleted ?stC = deleted ?st @ xs @ [func 2]" by blast
  then have last: "\<exists>xs. deleted ?stC = xs @ [func 2]" by (simp add: catalog_of_def)
  have c: "\<exists>ok st'. recursiveDeletion (Suc 2) example_env (func 2) DROP_CASCADE NOTICE (Some (func 1)) []
          ?st = Some (Inr (ok, st')) \<and> ?i \<notin> set (depRel st') \<and> (\<exists>xs. deleted st' = xs @ [func 2])"
    using rC gone last by (intro exI[of _ True] exI[of _ ?stC] conjI)
  from a s3 s1 b r3 r1 c show ?thesis by (intro conjI)
qed

section \<open>RESTRICT violations\<close>






lemma violations_depRel [simp]: "violations (st\<lparr>depRel := rel\<rparr>) = violations st"
  by (simp add: violations_def)



















section \<open>PIN dependencies\<close>

lemma pin_safe_report [simp]: "pin_safe (report ns st) = pin_safe st"
  by (simp add: pin_safe_def)








lemma present_append: "object_address_present a S \<Longrightarrow> object_address_present a (S @ [x])"
  by (auto simp: object_address_present_def object_address_present_loop_iff)

lemma present_self: "object_address_present a (S @ [a])"
  by (auto simp: object_address_present_def object_address_present_loop_iff)

lemma unvisited_mono: "present_set S \<subseteq> present_set S' \<Longrightarrow> unvisited rel S' \<le> unvisited rel S"
  unfolding unvisited_def by (intro card_mono) auto

lemma unvisited_add:
  assumes "a \<in> dependent_object ` set rel" and "\<not> object_address_present a S"
  shows "unvisited rel (add_exact_object_address a S) < unvisited rel S"
  unfolding unvisited_def add_exact_object_address_def
proof (rule psubset_card_mono)
  show "finite (dependent_object ` set rel - present_set S)" by simp
  have "a \<in> dependent_object ` set rel - present_set S" using assms by (simp add: present_set_def)
  moreover have "a \<notin> dependent_object ` set rel - present_set (S @ [a])"
    by (simp add: present_set_def present_self)
  moreover have "dependent_object ` set rel - present_set (S @ [a])
                   \<subseteq> dependent_object ` set rel - present_set S"
    by (auto simp: present_set_def present_append)
  ultimately show "dependent_object ` set rel - present_set (S @ [a])
                   \<subset> dependent_object ` set rel - present_set S"
    by blast
qed

lemma unvisited_le: "unvisited rel S \<le> length rel"
proof -
  have "unvisited rel S \<le> card (dependent_object ` set rel)"
    unfolding unvisited_def by (intro card_mono) auto
  also have "\<dots> \<le> card (set rel)" by (rule card_image_le) simp
  also have "\<dots> \<le> length rel" by (rule card_length)
  finally show ?thesis .
qed

lemma prescan_scan_grows:
  assumes f: "\<And>object S addself S'.
      findAutoDeletableObjects fuel e object S rel addself = Some (Inr S') \<Longrightarrow>
        present_set S \<subseteq> present_set S'"
  shows "findAutoDeletableObjects_scan fuel e object rel tups S = Some (Inr S') \<Longrightarrow>
           present_set S \<subseteq> present_set S'"
proof (induction tups arbitrary: S)
  case Nil
  then show ?case by simp
next
  case (Cons tup tups)
  from Cons.prems Cons.IH f show ?case
    by (auto split: if_splits option.splits sum.splits) blast+
qed

lemma prescan_grows:
  "findAutoDeletableObjects fuel e object S rel addself = Some (Inr S') \<Longrightarrow>
     present_set S \<subseteq> present_set S'"
proof (induction fuel arbitrary: object S addself S')
  case 0
  then show ?case by simp
next
  case (Suc fuel)
  have scan: "present_set S \<subseteq> present_set S'"
    if "findAutoDeletableObjects_scan fuel e ob rel tups S = Some (Inr S')" for ob tups S S'
    by (rule prescan_scan_grows[rotated, OF that]) (erule Suc.IH)
  show ?case
  proof (cases "object_address_present object S")
    case True
    with Suc.prems show ?thesis by simp
  next
    case False
    with Suc.prems have
      "findAutoDeletableObjects_scan fuel e object rel (scan_reference object rel)
         (if addself then add_exact_object_address object S else S) = Some (Inr S')"
      by simp
    from scan[OF this]
    have "present_set (if addself then add_exact_object_address object S else S) \<subseteq> present_set S'" .
    moreover have "present_set S \<subseteq> present_set (if addself then add_exact_object_address object S else S)"
      by (auto simp: present_set_def add_exact_object_address_def present_append)
    ultimately show ?thesis by blast
  qed
qed


lemma prescan_scan_terminates:
  assumes f: "\<And>object S. object \<in> dependent_object ` set rel \<Longrightarrow> unvisited rel S < fuel \<Longrightarrow>
      findAutoDeletableObjects fuel e object S rel True \<noteq> None"
  shows "set tups \<subseteq> set rel \<Longrightarrow> unvisited rel S < fuel \<Longrightarrow>
           findAutoDeletableObjects_scan fuel e object rel tups S \<noteq> None"
proof (induction tups arbitrary: S)
  case Nil
  then show ?case by simp
next
  case (Cons tup tups)
  from Cons.prems have sub: "set tups \<subseteq> set rel" and mem: "dependent_object tup \<in> dependent_object ` set rel"
    by auto
  show ?case
  proof (cases "deptype tup = DEPENDENCY_AUTO \<or> deptype tup = DEPENDENCY_INTERNAL")
    case False
    with Cons.IH[OF sub Cons.prems(2)] show ?thesis
      by (auto split: sum.splits prod.splits)
  next
    case True
    then have nn: "deptype tup \<noteq> DEPENDENCY_NORMAL" by auto
    from f[OF mem Cons.prems(2)] obtain r where
      r: "findAutoDeletableObjects fuel e (dependent_object tup) S rel True = Some r"
      by auto
    show ?thesis
    proof (cases r)
      case (Inl err)
      with r True nn show ?thesis by simp
    next
      case (Inr S')
      with r prescan_grows have "present_set S \<subseteq> present_set S'" by blast
      then have "unvisited rel S' \<le> unvisited rel S" by (rule unvisited_mono)
      with Cons.prems(2) have "unvisited rel S' < fuel" by simp
      from Cons.IH[OF sub this] r Inr True nn show ?thesis by simp
    qed
  qed
qed

lemma prescan_recursion_terminates:
  "object \<in> dependent_object ` set rel \<Longrightarrow> unvisited rel S < fuel \<Longrightarrow>
     findAutoDeletableObjects fuel e object S rel True \<noteq> None"
proof (induction fuel arbitrary: object S)
  case 0
  then show ?case by simp
next
  case (Suc fuel)
  show ?case
  proof (cases "object_address_present object S")
    case True
    then show ?thesis by simp
  next
    case False
    from unvisited_add[OF Suc.prems(1) False] Suc.prems(2)
    have lt: "unvisited rel (add_exact_object_address object S) < fuel" by simp
    have "findAutoDeletableObjects_scan fuel e object rel (scan_reference object rel)
            (add_exact_object_address object S) \<noteq> None"
      by (rule prescan_scan_terminates[OF Suc.IH _ lt]) (auto simp: scan_reference_def)
    with False show ?thesis by simp
  qed
qed

lemma findAutoDeletableObjects_terminates:
  assumes "length rel + 2 \<le> fuel"
  shows "findAutoDeletableObjects fuel e object S rel addself \<noteq> None"
proof -
  from assms obtain k where fuel: "fuel = Suc k" and k: "length rel < k"
    by (cases fuel) auto
  let ?S1 = "if addself then add_exact_object_address object S else S"
  have "unvisited rel ?S1 < k" using unvisited_le[of rel ?S1] k by simp
  have "findAutoDeletableObjects_scan k e object rel (scan_reference object rel) ?S1 \<noteq> None"
    by (rule prescan_scan_terminates[OF prescan_recursion_terminates _ \<open>unvisited rel ?S1 < k\<close>])
       (auto simp: scan_reference_def)
  then show ?thesis unfolding fuel by simp
qed









section \<open>Termination without INTERNAL tuples\<close>

lemma no_internal_thinned: "thinned rel rel' \<Longrightarrow> no_internal rel \<Longrightarrow> no_internal rel'"
  by (auto simp: no_internal_def dest: thinned_set)

lemma scan_depender_dependent: "tup \<in> set rel \<Longrightarrow> tup \<in> set (scan_depender (dependent_object tup) rel)"
  by (simp add: scan_depender_def dependent_object_def)

lemma grown_thinned: "grown st st' \<Longrightarrow> thinned (depRel st) (depRel st')"
  by (simp add: grown_def)

lemma scan_terminates_no_internal:
  assumes rd: "\<And>tup callingObject st. no_internal (depRel st) \<Longrightarrow> length (depRel st) \<le> fuel \<Longrightarrow>
      tup \<in> set (depRel st) \<Longrightarrow>
      recursiveDeletion fuel e (dependent_object tup) behavior msglevel callingObject oktodelete st \<noteq> None"
  shows "no_internal (depRel st) \<Longrightarrow> length (depRel st) \<le> fuel \<Longrightarrow>
     deleteDependentObjects_scan fuel e object d behavior msglevel oktodelete tups ok st \<noteq> None"
proof (induction tups arbitrary: ok st)
  case Nil
  then show ?case by simp
next
  case (Cons tup tups)
  show ?case
  proof (cases "tup \<in> set (depRel st)")
    case False
    with Cons.IH[OF Cons.prems] show ?thesis by simp
  next
    case True
    show ?thesis
    proof (cases "deptype tup = DEPENDENCY_NORMAL \<or> deptype tup = DEPENDENCY_AUTO \<or>
        deptype tup = DEPENDENCY_INTERNAL")
      case False
      with True show ?thesis by (auto simp: Let_def)
    next
      case ty: True
      let ?tr = "tuple_report e behavior msglevel oktodelete tup object"
      show ?thesis
      proof (cases rule: ereport_description_cases[where e = e and lvl = "fst ?tr"
          and x = "dependent_object tup" and m = "snd ?tr" and st = st])
        case (raise err)
        then show ?thesis unfolding scan_Cons[OF True ty] by simp
      next
        case (return ns)
        let ?st1 = "report (ns @ [(fst ?tr, snd ?tr)]) st"
        have call: "recursiveDeletion fuel e (dependent_object tup) behavior msglevel (Some object)
            oktodelete ?st1 \<noteq> None"
          by (rule rd) (simp_all add: Cons.prems True)
        have cont: "deleteDependentObjects_scan fuel e object d behavior msglevel oktodelete tups ok2 st2
            \<noteq> None"
          if "recursiveDeletion fuel e (dependent_object tup) behavior msglevel (Some object)
                oktodelete ?st1 = Some (Inr (ok1, st2))" for ok1 st2 ok2
        proof -
          from grown_thinned[OF recursiveDeletion_grown[OF that]]
          have t: "thinned (depRel st) (depRel st2)" by simp
          from no_internal_thinned[OF t Cons.prems(1)] thinned_length[OF t] Cons.prems(2)
          show ?thesis by (intro Cons.IH) simp_all
        qed
        from call cont show ?thesis
          unfolding scan_Cons[OF True ty] return(2)
          by (auto split: option.splits sum.splits)
      qed
    qed
  qed
qed

lemma recursiveDeletion_after_step1:
  assumes sc: "\<And>d ns rel. thinned (depRel st) rel \<Longrightarrow>
      deleteDependentObjects_scan fuel e object d behavior msglevel oktodelete
        (scan_reference object rel) True ((report ns st)\<lparr>depRel := rel\<rparr>) = None \<Longrightarrow>
      recursiveDeletion_step1 e d callingObject (scan_depender object (depRel st)) None (depRel st)
        = Inr (None, rel) \<Longrightarrow> False"
    and ni: "no_internal (depRel st)"
  shows "recursiveDeletion (Suc fuel) e object behavior msglevel callingObject oktodelete st \<noteq> None"
proof (cases "getObjectDescription e object")
  case (Inl err)
  then show ?thesis by simp
next
  case (Inr p)
  obtain d ns where p: "p = (d, ns)" by (cases p)
  note d = Inr[unfolded p]
  show ?thesis
  proof (cases "recursiveDeletion_step1 e d callingObject (scan_depender object (depRel st)) None (depRel st)")
    case (Inl err)
    with d show ?thesis by simp
  next
    case s1: (Inr q)
    obtain ow rel where q: "q = (ow, rel)" by (cases q)
    from ni have "\<forall>t \<in> set (scan_depender object (depRel st)). deptype t \<noteq> DEPENDENCY_INTERNAL"
      by (auto simp: no_internal_def scan_depender_def)
    from step1_no_internal[OF s1[unfolded q] this] have ow: "ow = None" by simp
    from sc[OF step1_thinned[OF s1[unfolded q]] _ s1[unfolded q ow]]
    have "deleteDependentObjects_scan fuel e object d behavior msglevel oktodelete
        (scan_reference object rel) True ((report ns st)\<lparr>depRel := rel\<rparr>) \<noteq> None"
      by blast
    then show ?thesis
      unfolding recursiveDeletion_not_owned[OF d s1[unfolded q ow]]
      by (auto split: option.splits sum.splits)
  qed
qed

lemma recursiveDeletion_terminates_no_internal:
  "no_internal (depRel st) \<Longrightarrow> length (depRel st) \<le> fuel \<Longrightarrow> tup \<in> set (depRel st) \<Longrightarrow>
     recursiveDeletion fuel e (dependent_object tup) behavior msglevel callingObject oktodelete st \<noteq> None"
proof (induction fuel arbitrary: tup callingObject st)
  case 0
  then show ?case by simp
next
  case (Suc fuel)
  show ?case
  proof (rule recursiveDeletion_after_step1[OF _ Suc.prems(1)])
    fix d ms rel
    assume t: "thinned (depRel st) rel"
      and n: "deleteDependentObjects_scan fuel e (dependent_object tup) d behavior msglevel oktodelete
                (scan_reference (dependent_object tup) rel) True ((report ms st)\<lparr>depRel := rel\<rparr>) = None"
      and s1: "recursiveDeletion_step1 e d callingObject
                 (scan_depender (dependent_object tup) (depRel st)) None (depRel st) = Inr (None, rel)"
    from Suc.prems have ti: "deptype tup \<noteq> DEPENDENCY_INTERNAL" by (simp add: no_internal_def)
    from step1_deletes[OF s1] scan_depender_dependent[OF Suc.prems(3)] ti
    have "tup \<notin> set rel" by blast
    from thinned_less[OF t Suc.prems(3) this] Suc.prems(2) have len: "length rel \<le> fuel" by simp
    have "deleteDependentObjects_scan fuel e (dependent_object tup) d behavior msglevel oktodelete
                (scan_reference (dependent_object tup) rel) True ((report ms st)\<lparr>depRel := rel\<rparr>) \<noteq> None"
      by (rule scan_terminates_no_internal[OF Suc.IH])
         (simp_all add: len no_internal_thinned[OF t Suc.prems(1)])
    with n show False by simp
  qed
qed

text \<open>
  Where \<^verbatim>\<open>pg_depend\<close> holds no INTERNAL tuple, \<^verbatim>\<open>performDeletion\<close> returns (a state
  or an error) as soon as the depth allowed exceeds the number of tuples by two,
  cycles of NORMAL and AUTO tuples included: every recursive call then follows a live
  tuple that its own Step 1 deletes.
\<close>

lemma performDeletion_terminates_no_internal:
  assumes ni: "no_internal (depRel st)" and fuel: "length (depRel st) + 2 \<le> fuel"
  shows "performDeletion fuel e object behavior st \<noteq> None"
proof -
  from fuel obtain k where k: "fuel = Suc k" and len: "length (depRel st) \<le> k"
    by (cases fuel) auto
  have rd: "recursiveDeletion (Suc k) e object behavior NOTICE None S
              (st\<lparr>messages := messages st @ ns, alreadyDeleted := None\<rparr>) \<noteq> None"
    for S ns
  proof (rule recursiveDeletion_after_step1)
    let ?st0 = "st\<lparr>messages := messages st @ ns, alreadyDeleted := None\<rparr>"
    show "no_internal (depRel ?st0)" using ni by simp
    fix d ms rel
    assume t: "thinned (depRel ?st0) rel"
      and n: "deleteDependentObjects_scan k e object d behavior NOTICE S
                (scan_reference object rel) True ((report ms ?st0)\<lparr>depRel := rel\<rparr>) = None"
    from t have t': "thinned (depRel st) rel" by simp
    have "deleteDependentObjects_scan k e object d behavior NOTICE S
                (scan_reference object rel) True ((report ms ?st0)\<lparr>depRel := rel\<rparr>) \<noteq> None"
      by (rule scan_terminates_no_internal[OF recursiveDeletion_terminates_no_internal])
         (use thinned_length[OF t'] len no_internal_thinned[OF t' ni] in simp_all)
    with n show False by simp
  qed
  from findAutoDeletableObjects_terminates[OF fuel]
  obtain f where f: "findAutoDeletableObjects (Suc k) e object new_object_addresses (depRel st) True = Some f"
    unfolding k by blast
  show ?thesis
  proof (cases "getObjectDescription e object")
    case (Inl err)
    then show ?thesis by (simp add: performDeletion_def)
  next
    case (Inr p)
    obtain d ns where p: "p = (d, ns)" by (cases p)
    show ?thesis
    proof (cases f)
      case (Inl err)
      with Inr p f show ?thesis unfolding performDeletion_def k
        by (simp del: findAutoDeletableObjects.simps)
    next
      case S: (Inr S)
      from rd[of S ns] obtain r where
        "recursiveDeletion (Suc k) e object behavior NOTICE None S
           (st\<lparr>messages := messages st @ ns, alreadyDeleted := None\<rparr>) = Some r"
        by blast
      with Inr p f S show ?thesis unfolding performDeletion_def k
        by (auto split: sum.splits prod.splits
              simp del: findAutoDeletableObjects.simps recursiveDeletion.simps)
    qed
  qed
qed

end
